theory Spec2Isabelle
  imports Main "HOL-Library.AList"
begin

section \<open>JSON values and JavaScript strings\<close>

text \<open>
  The translation tool works on the value that \<^verbatim>\<open>JSON.parse\<close> returns. A JavaScript
  string is a sequence of UTF-16 code units; a \<^typ>\<open>char\<close> of the model is one code unit
  below 256, so \<^term>\<open>length\<close> is \<^verbatim>\<open>.length\<close> on such strings. Numbers are never inspected
  by the code modelled here, so their payload is an integer.

  An object is the list of its own enumerable properties in the order \<^verbatim>\<open>Object.entries\<close>
  enumerates them, which is all that \<^verbatim>\<open>Object.entries\<close>, \<^verbatim>\<open>Object.keys\<close> and
  \<^verbatim>\<open>JSON.stringify\<close> see of it; the keys of an object read from JSON are pairwise distinct
  (\<open>wf_json\<close> below), and \<^verbatim>\<open>__proto__\<close> may be one of them, \<^verbatim>\<open>JSON.parse\<close> defining it as an
  own property. The prototype of an object is not part of the value. The objects that
  the code reads with \<^verbatim>\<open>in\<close> and that it writes to are those that \<^verbatim>\<open>JSON.parse\<close> returned
  and those it creates itself with \<^verbatim>\<open>{}\<close>: their prototype is \<^verbatim>\<open>Object.prototype\<close>, that of
  an array is \<^verbatim>\<open>Array.prototype\<close>, and both prototypes are taken to be as the language
  defines them, nothing added. Where a member of \<^verbatim>\<open>Object.prototype\<close> comes into play, at
  \<^verbatim>\<open>obj[key] = v\<close> and at \<^verbatim>\<open>key in obj\<close>, is said at the function concerned.
\<close>

datatype json =
    JNull
  | JBool bool
  | JNum int
  | JStr string
  | JArr "json list"
  | JObj "(string \<times> json) list"

type_synonym obj = "(string \<times> json) list"

fun wf_json :: "json \<Rightarrow> bool"
  and wf_items :: "json list \<Rightarrow> bool"
  and wf_entries :: "(string \<times> json) list \<Rightarrow> bool" where
  "wf_json (JArr xs) = wf_items xs"
| "wf_json (JObj es) = (distinct (map fst es) \<and> wf_entries es)"
| "wf_json _ = True"
| "wf_items [] = True"
| "wf_items (x # xs) = (wf_json x \<and> wf_items xs)"
| "wf_entries [] = True"
| "wf_entries ((k, v) # es) = (wf_json v \<and> wf_entries es)"

text \<open>\<^verbatim>\<open>index.toString()\<close>: the decimal numeral of an array index.\<close>

definition digitChar :: "nat \<Rightarrow> char" where
  "digitChar d = ''0123456789'' ! d"

fun toString :: "nat \<Rightarrow> string" where
  "toString n = (if n < 10 then [digitChar n] else toString (n div 10) @ [digitChar (n mod 10)])"

declare toString.simps [simp del]

text \<open>\<^verbatim>\<open>path.join('.')\<close>.\<close>

fun joinDot :: "string list \<Rightarrow> string" where
  "joinDot [] = []"
| "joinDot [s] = s"
| "joinDot (s # t # ss) = s @ ''.'' @ joinDot (t # ss)"

section \<open>Regular expressions\<close>

text \<open>
  The classifier is written with regular expression literals. A regular expression is
  matched the way the JavaScript engine does it, by backtracking: \<open>rmatch r s\<close> lists
  the rests of \<open>s\<close> after each way \<open>r\<close> can match a prefix of \<open>s\<close>, in the order the
  engine tries them (left alternative first, greedy repetition first, an iteration that
  consumes nothing is not repeated).
\<close>

datatype regex =
    Eps
  | Cls "(char \<times> char) list"
  | NCls "(char \<times> char) list"
  | Seq regex regex
  | Alt regex regex
  | Star regex

fun inRanges :: "char \<Rightarrow> (char \<times> char) list \<Rightarrow> bool" where
  "inRanges c [] = False"
| "inRanges c ((lo, hi) # rs) =
     (((of_char lo :: nat) \<le> of_char c \<and> (of_char c :: nat) \<le> of_char hi) \<or> inRanges c rs)"

fun rmatch :: "regex \<Rightarrow> string \<Rightarrow> string list" where
  "rmatch Eps s = [s]"
| "rmatch (Cls rs) s = (case s of [] \<Rightarrow> [] | c # cs \<Rightarrow> if inRanges c rs then [cs] else [])"
| "rmatch (NCls rs) s = (case s of [] \<Rightarrow> [] | c # cs \<Rightarrow> if inRanges c rs then [] else [cs])"
| "rmatch (Seq a b) s = concat (map (rmatch b) (rmatch a s))"
| "rmatch (Alt a b) s = rmatch a s @ rmatch b s"
| "rmatch (Star a) s =
     concat (map (\<lambda>s'. if length s' < length s then rmatch (Star a) s' else []) (rmatch a s)) @ [s]"

definition chr :: "char \<Rightarrow> regex" where
  "chr c = Cls [(c, c)]"

fun lit :: "string \<Rightarrow> regex" where
  "lit [] = Eps"
| "lit (c # cs) = Seq (chr c) (lit cs)"

fun seqs :: "regex list \<Rightarrow> regex" where
  "seqs [] = Eps"
| "seqs (r # rs) = Seq r (seqs rs)"

definition plus :: "regex \<Rightarrow> regex" where
  "plus r = Seq r (Star r)"

definition opt :: "regex \<Rightarrow> regex" where
  "opt r = Alt r Eps"

fun times :: "nat \<Rightarrow> regex \<Rightarrow> regex" where
  "times 0 r = Eps"
| "times (Suc n) r = Seq r (times n r)"

text \<open>
  \<^verbatim>\<open>pattern.test(s)\<close> for a pattern each of whose alternatives starts with \<^verbatim>\<open>^\<close>: an
  alternative is a regular expression and whether it ends with \<^verbatim>\<open>$\<close>.
\<close>

fun testAlt :: "regex \<times> bool \<Rightarrow> string \<Rightarrow> bool" where
  "testAlt (r, endAnchor) s = (if endAnchor then [] \<in> set (rmatch r s) else rmatch r s \<noteq> [])"

definition test :: "(regex \<times> bool) list \<Rightarrow> string \<Rightarrow> bool" where
  "test alts s = list_ex (\<lambda>a. testAlt a s) alts"

text \<open>
  \<^verbatim>\<open>s.match(pattern)\<close> for a pattern with the \<^verbatim>\<open>g\<close> flag: the lengths of the successive
  matches, scanning from the left and continuing after each match.
\<close>

fun matchLengths :: "regex \<Rightarrow> string \<Rightarrow> nat list" where
  "matchLengths r [] = (if rmatch r [] = [] then [] else [0])"
| "matchLengths r (c # cs) =
     (case rmatch r (c # cs) of
        [] \<Rightarrow> matchLengths r cs
      | rest # _ \<Rightarrow>
          (if length rest \<le> length cs
           then (Suc (length cs) - length rest) # matchLengths r rest
           else 0 # matchLengths r cs))"

section \<open>The classifier\<close>

definition whitespace :: "(char \<times> char) list" where
  "whitespace = [(CHR 0x09, CHR 0x0D), (CHR '' '', CHR '' ''), (CHR 0xA0, CHR 0xA0)]"

definition trim :: "string \<Rightarrow> string" where
  "trim s = rev (dropWhile (\<lambda>c. inRanges c whitespace) (rev (dropWhile (\<lambda>c. inRanges c whitespace) s)))"

definition digit :: regex where
  "digit = Cls [(CHR ''0'', CHR ''9'')]"

definition lower :: regex where
  "lower = Cls [(CHR ''a'', CHR ''z'')]"

definition word :: "(char \<times> char) list" where
  "word = [(CHR ''a'', CHR ''z''), (CHR ''A'', CHR ''Z''), (CHR ''0'', CHR ''9''), (CHR ''_'', CHR ''_'')]"

definition wordStart :: "(char \<times> char) list" where
  "wordStart = [(CHR ''a'', CHR ''z''), (CHR ''A'', CHR ''Z''), (CHR ''_'', CHR ''_'')]"

definition hexDigit :: regex where
  "hexDigit = Cls [(CHR ''A'', CHR ''F''), (CHR ''a'', CHR ''f''), (CHR ''0'', CHR ''9'')]"

text \<open>A letter under the \<^verbatim>\<open>i\<close> flag.\<close>

definition ci :: "char \<Rightarrow> char \<Rightarrow> regex" where
  "ci l u = Cls [(l, l), (u, u)]"

definition notBrace :: regex where
  "notBrace = NCls [(CHR ''}'', CHR ''}'')]"

text \<open>\<^verbatim>\<open>/^https?:\/\/[^\s]+$/i\<close>\<close>

definition URL_PATTERN :: "(regex \<times> bool) list" where
  "URL_PATTERN =
     [(seqs [ci CHR ''h'' CHR ''H'', ci CHR ''t'' CHR ''T'', ci CHR ''t'' CHR ''T'',
             ci CHR ''p'' CHR ''P'', opt (ci CHR ''s'' CHR ''S''), lit ''://'',
             plus (NCls whitespace)], True)]"

text \<open>\<^verbatim>\<open>/^#([A-Fa-f0-9]{6}|[A-Fa-f0-9]{3})$/\<close>\<close>

definition HEX_COLOR_PATTERN :: "(regex \<times> bool) list" where
  "HEX_COLOR_PATTERN = [(Seq (chr CHR ''#'') (Alt (times 6 hexDigit) (times 3 hexDigit)), True)]"

text \<open>\<^verbatim>\<open>/^[^\s@]+@[^\s@]+\.[^\s@]+$/\<close>\<close>

definition notSpaceAt :: regex where
  "notSpaceAt = NCls (whitespace @ [(CHR ''@'', CHR ''@'')])"

definition EMAIL_PATTERN :: "(regex \<times> bool) list" where
  "EMAIL_PATTERN =
     [(seqs [plus notSpaceAt, chr CHR ''@'', plus notSpaceAt, chr CHR ''.'', plus notSpaceAt], True)]"

text \<open>\<^verbatim>\<open>/^-?\d+(\.\d+)?$/\<close>\<close>

definition NUMBER_PATTERN :: "(regex \<times> bool) list" where
  "NUMBER_PATTERN =
     [(seqs [opt (chr CHR ''-''), plus digit, opt (Seq (chr CHR ''.'') (plus digit))], True)]"

text \<open>\<^verbatim>\<open>/\{\{[^}]+\}\}|\{[^}]+\}|%[a-zA-Z0-9_]+%|\$\{[^}]+\}/g\<close>\<close>

definition PLACEHOLDER_PATTERN :: regex where
  "PLACEHOLDER_PATTERN =
     Alt (seqs [lit ''{{'', plus notBrace, lit ''}}''])
    (Alt (seqs [lit ''{'', plus notBrace, lit ''}''])
    (Alt (seqs [lit ''%'', plus (Cls word), lit ''%''])
         (seqs [lit ''${'', plus notBrace, lit ''}''])))"

text \<open>\<^verbatim>\<open>/<[^>]+>/g\<close>\<close>

definition HTML_TAG_PATTERN :: regex where
  "HTML_TAG_PATTERN = seqs [lit ''<'', plus (NCls [(CHR ''>'', CHR ''>'')]), lit ''>'']"

text \<open>\<^verbatim>\<open>/\$[a-zA-Z_][a-zA-Z0-9_]*|\{[a-zA-Z_][a-zA-Z0-9_]*\}/g\<close>\<close>

definition VARIABLE_PATTERN :: regex where
  "VARIABLE_PATTERN =
     Alt (seqs [lit ''$'', Cls wordStart, Star (Cls word)])
         (seqs [lit ''{'', Cls wordStart, Star (Cls word), lit ''}''])"

text \<open>
  The technical patterns, in the order of the source's array:
  \<^verbatim>\<open>/^[A-Z_][A-Z0-9_]*$/\<close>,
  \<^verbatim>\<open>/^[a-z]+([A-Z][a-z]*)*$/\<close>,
  \<^verbatim>\<open>/^[a-z]+(-[a-z]+)*$/\<close>,
  \<^verbatim>\<open>/^[a-z]+(_[a-z]+)*$/\<close>,
  \<^verbatim>\<open>/^\d{4}-\d{2}-\d{2}/\<close>,
  \<^verbatim>\<open>/^\d+px$|^\d+%$|^\d+em$|^\d+rem$/\<close>,
  \<^verbatim>\<open>/^rgb\(|^rgba\(|^hsl\(|^hsla\(/i\<close>.
\<close>

definition upper :: regex where
  "upper = Cls [(CHR ''A'', CHR ''Z'')]"

definition technicalPatterns :: "(regex \<times> bool) list list" where
  "technicalPatterns =
    [ [(Seq (Cls [(CHR ''A'', CHR ''Z''), (CHR ''_'', CHR ''_'')])
            (Star (Cls [(CHR ''A'', CHR ''Z''), (CHR ''0'', CHR ''9''), (CHR ''_'', CHR ''_'')])), True)],
      [(Seq (plus lower) (Star (Seq upper (Star lower))), True)],
      [(Seq (plus lower) (Star (Seq (chr CHR ''-'') (plus lower))), True)],
      [(Seq (plus lower) (Star (Seq (chr CHR ''_'') (plus lower))), True)],
      [(seqs [times 4 digit, chr CHR ''-'', times 2 digit, chr CHR ''-'', times 2 digit], False)],
      [(Seq (plus digit) (lit ''px''), True), (Seq (plus digit) (lit ''%''), True),
       (Seq (plus digit) (lit ''em''), True), (Seq (plus digit) (lit ''rem''), True)],
      [(seqs [ci CHR ''r'' CHR ''R'', ci CHR ''g'' CHR ''G'', ci CHR ''b'' CHR ''B'', chr CHR ''(''], False),
       (seqs [ci CHR ''r'' CHR ''R'', ci CHR ''g'' CHR ''G'', ci CHR ''b'' CHR ''B'',
              ci CHR ''a'' CHR ''A'', chr CHR ''(''], False),
       (seqs [ci CHR ''h'' CHR ''H'', ci CHR ''s'' CHR ''S'', ci CHR ''l'' CHR ''L'', chr CHR ''(''], False),
       (seqs [ci CHR ''h'' CHR ''H'', ci CHR ''s'' CHR ''S'', ci CHR ''l'' CHR ''L'',
              ci CHR ''a'' CHR ''A'', chr CHR ''(''], False)] ]"

text \<open>
  The two thresholds compare an integer with a product computed in IEEE 754 doubles.
  \<^verbatim>\<open>text.length * 0.5\<close> is exact. \<^verbatim>\<open>text.length * 0.7\<close> is the double nearest to the
  product of the length and the double nearest to 0.7, which is
  \<open>3152519739159347 / 2 ^ 52\<close>: \<open>round53\<close> rounds a numerator to 53 significant bits,
  ties to even.
\<close>

fun bitlen :: "nat \<Rightarrow> nat" where
  "bitlen n = (if n = 0 then 0 else Suc (bitlen (n div 2)))"

declare bitlen.simps [simp del]

definition round53 :: "nat \<Rightarrow> nat" where
  "round53 x =
     (if bitlen x \<le> 53 then x
      else let s = bitlen x - 53; q = x div 2 ^ s; r = x mod 2 ^ s
           in (if 2 * r > 2 ^ s \<or> (2 * r = 2 ^ s \<and> odd q) then q + 1 else q) * 2 ^ s)"

definition exceedsSevenTenths :: "nat \<Rightarrow> nat \<Rightarrow> bool" where
  "exceedsSevenTenths len n = (len * 2 ^ 52 > round53 (n * 3152519739159347))"

definition shouldTranslate :: "string \<Rightarrow> bool" where
  "shouldTranslate text =
     (if text = [] then False
      else if length (trim text) = 0 then False
      else if length (trim text) < 2 then False
      else if test URL_PATTERN text then False
      else if test EMAIL_PATTERN text then False
      else if test HEX_COLOR_PATTERN text then False
      else if test NUMBER_PATTERN (trim text) then False
      else let placeholderMatches = matchLengths PLACEHOLDER_PATTERN text;
               variableMatches = matchLengths VARIABLE_PATTERN text;
               matchedLength = sum_list (placeholderMatches @ variableMatches)
           in if 2 * matchedLength > length text then False
      else let htmlMatches = matchLengths HTML_TAG_PATTERN text;
               htmlLength = sum_list htmlMatches
           in if exceedsSevenTenths htmlLength (length text) then False
      else \<not> list_ex (\<lambda>pattern. test pattern (trim text)) technicalPatterns)"

section \<open>The tree walker\<close>

type_synonym occurrence = "string list \<times> string"

fun extractStrings :: "json \<Rightarrow> string list \<Rightarrow> occurrence list"
  and extractItems :: "json list \<Rightarrow> nat \<Rightarrow> string list \<Rightarrow> occurrence list"
  and extractEntries :: "(string \<times> json) list \<Rightarrow> string list \<Rightarrow> occurrence list" where
  "extractStrings (JStr s) path = (if shouldTranslate s then [(path, s)] else [])"
| "extractStrings (JArr xs) path = extractItems xs 0 path"
| "extractStrings (JObj es) path = extractEntries es path"
| "extractStrings _ path = []"
| "extractItems [] index path = []"
| "extractItems (item # xs) index path =
     extractStrings item (path @ [toString index]) @ extractItems xs (Suc index) path"
| "extractEntries [] path = []"
| "extractEntries ((key, v) # es) path =
     extractStrings v (path @ [key]) @ extractEntries es path"

text \<open>
  \<^verbatim>\<open>applyTranslations\<close>. The translations are a \<^verbatim>\<open>Map<string, string>\<close> from dot-joined
  paths to texts; \<^verbatim>\<open>translations.get(pathKey) || obj\<close> keeps the original string when
  the key is absent and also when the stored text is the empty string. The new object
  is filled key by key (\<^verbatim>\<open>newObj[key] = ...\<close>). For the key \<^verbatim>\<open>__proto__\<close> this assignment
  runs the setter that \<^verbatim>\<open>newObj\<close> inherits from \<^verbatim>\<open>Object.prototype\<close>: it changes the
  prototype of \<^verbatim>\<open>newObj\<close> when the value is an object, an array or \<^verbatim>\<open>null\<close>, does nothing
  otherwise, and in no case defines a property, so the new object has no entry for this
  key. Every other key becomes an own property, also where \<^verbatim>\<open>newObj\<close> inherits a member of
  that name, the inherited members being writable. \<^verbatim>\<open>cloneDeep\<close> returns a fresh value
  equal to its argument; no write of the function reaches the argument itself.
\<close>

type_synonym translationMap = "string \<rightharpoonup> string"

definition cloneDeep :: "json \<Rightarrow> json" where
  "cloneDeep v = v"

fun applyToValue :: "translationMap \<Rightarrow> json \<Rightarrow> string list \<Rightarrow> json"
  and applyItems :: "translationMap \<Rightarrow> json list \<Rightarrow> nat \<Rightarrow> string list \<Rightarrow> json list"
  and applyEntries :: "translationMap \<Rightarrow> (string \<times> json) list \<Rightarrow> string list \<Rightarrow> obj \<Rightarrow> obj" where
  "applyToValue tr (JStr s) path =
     JStr (case tr (joinDot path) of None \<Rightarrow> s | Some t \<Rightarrow> if t = [] then s else t)"
| "applyToValue tr (JArr xs) path = JArr (applyItems tr xs 0 path)"
| "applyToValue tr (JObj es) path = JObj (applyEntries tr es path [])"
| "applyToValue tr v path = v"
| "applyItems tr [] index path = []"
| "applyItems tr (item # xs) index path =
     applyToValue tr item (path @ [toString index]) # applyItems tr xs (Suc index) path"
| "applyEntries tr [] path newObj = newObj"
| "applyEntries tr ((key, v) # es) path newObj =
     applyEntries tr es path
       (if key = ''__proto__'' then newObj
        else AList.update key (applyToValue tr v (path @ [key])) newObj)"

definition applyTranslations :: "json \<Rightarrow> translationMap \<Rightarrow> json" where
  "applyTranslations originalObj tr = applyToValue tr (cloneDeep originalObj) []"

section \<open>The deduplicator\<close>

text \<open>
  \<^verbatim>\<open>deduplicateStrings\<close>. The \<^verbatim>\<open>Map\<close> from values to index lists keeps its keys in
  insertion order, so it is an association list; \<open>AList.update\<close> replaces the entry of
  a key in place and appends the entry of a new key, as \<^verbatim>\<open>Map.set\<close> does. Reading
  \<^verbatim>\<open>indices[0]\<close> of an empty list or \<^verbatim>\<open>strings[i].path\<close> out of range would raise a
  \<^verbatim>\<open>TypeError\<close>.
\<close>

datatype exn = TypeError | Error string

record uniqueString =
  upath :: "string list"
  uvalue :: string
  originalIndices :: "nat list"

type_synonym valueMap = "(string \<times> nat list) list"

fun groupStep :: "valueMap \<Rightarrow> nat \<times> occurrence \<Rightarrow> valueMap" where
  "groupStep valueMap (index, item) =
     (case map_of valueMap (snd item) of
        None \<Rightarrow> AList.update (snd item) [index] valueMap
      | Some indices \<Rightarrow> AList.update (snd item) (indices @ [index]) valueMap)"

fun mkUnique :: "occurrence list \<Rightarrow> string \<times> nat list \<Rightarrow> exn + uniqueString" where
  "mkUnique strings (v, indices) =
     (case indices of
        [] \<Rightarrow> Inl TypeError
      | firstIndex # _ \<Rightarrow>
          if firstIndex < length strings
          then Inr \<lparr>upath = fst (strings ! firstIndex), uvalue = v, originalIndices = indices\<rparr>
          else Inl TypeError)"

fun collect :: "('e + 'a) list \<Rightarrow> 'e + 'a list" where
  "collect [] = Inr []"
| "collect (Inl e # rs) = Inl e"
| "collect (Inr x # rs) = (case collect rs of Inl e \<Rightarrow> Inl e | Inr xs \<Rightarrow> Inr (x # xs))"

definition deduplicateStrings :: "occurrence list \<Rightarrow> exn + (uniqueString list \<times> valueMap)" where
  "deduplicateStrings strings =
     (let valueMap = foldl groupStep [] (enumerate 0 strings)
      in case collect (map (mkUnique strings) valueMap) of
           Inl e \<Rightarrow> Inl e
         | Inr unique \<Rightarrow> Inr (unique, valueMap))"

section \<open>The cache key\<close>

text \<open>
  \<^verbatim>\<open>getCacheKey\<close> is \<^verbatim>\<open>btoa(encodeURIComponent(`${text}-${sourceLanguage}-${targetLanguage}`))\<close>.
  \<^verbatim>\<open>encodeURIComponent\<close> keeps the unreserved characters and writes every other
  character as the bytes of its UTF-8 encoding, each byte as \<^verbatim>\<open>%\<close> and two upper-case
  hexadecimal digits; a code unit below 128 is one byte, one from 128 to 255 is two
  bytes. Its result is ASCII, so \<^verbatim>\<open>btoa\<close> does not raise; \<^verbatim>\<open>btoa\<close> is Base64 with padding.
\<close>

definition unreserved :: "(char \<times> char) list" where
  "unreserved =
     [(CHR ''A'', CHR ''Z''), (CHR ''a'', CHR ''z''), (CHR ''0'', CHR ''9''),
      (CHR ''-'', CHR ''-''), (CHR ''_'', CHR ''_''), (CHR ''.'', CHR ''.''),
      (CHR ''!'', CHR ''!''), (CHR ''~'', CHR ''~''), (CHR ''*'', CHR ''*''),
      (CHR 0x27, CHR 0x27), (CHR ''('', CHR ''(''), (CHR '')'', CHR '')'')]"

definition hexDigitOf :: "nat \<Rightarrow> char" where
  "hexDigitOf d = ''0123456789ABCDEF'' ! d"

definition percentByte :: "nat \<Rightarrow> string" where
  "percentByte b = [CHR ''%'', hexDigitOf (b div 16), hexDigitOf (b mod 16)]"

definition encodeChar :: "char \<Rightarrow> string" where
  "encodeChar c =
     (if inRanges c unreserved then [c]
      else if (of_char c :: nat) < 128 then percentByte (of_char c)
      else percentByte (192 + of_char c div 64) @ percentByte (128 + of_char c mod 64))"

definition encodeURIComponent :: "string \<Rightarrow> string" where
  "encodeURIComponent s = concat (map encodeChar s)"

definition base64Char :: "nat \<Rightarrow> char" where
  "base64Char i = ''ABCDEFGHIJKLMNOPQRSTUVWXYZabcdefghijklmnopqrstuvwxyz0123456789+/'' ! i"

fun btoaBytes :: "nat list \<Rightarrow> string" where
  "btoaBytes [] = []"
| "btoaBytes [a] = [base64Char (a div 4), base64Char ((a mod 4) * 16), CHR ''='', CHR ''='']"
| "btoaBytes [a, b] =
     [base64Char (a div 4), base64Char ((a mod 4) * 16 + b div 16),
      base64Char ((b mod 16) * 4), CHR ''='']"
| "btoaBytes (a # b # c # rest) =
     [base64Char (a div 4), base64Char ((a mod 4) * 16 + b div 16),
      base64Char ((b mod 16) * 4 + c div 64), base64Char (c mod 64)] @ btoaBytes rest"

definition btoa :: "string \<Rightarrow> string" where
  "btoa s = btoaBytes (map of_char s)"

definition getCacheKey :: "string \<Rightarrow> string \<Rightarrow> string \<Rightarrow> string" where
  "getCacheKey text sourceLanguage targetLanguage =
     btoa (encodeURIComponent (text @ ''-'' @ sourceLanguage @ ''-'' @ targetLanguage))"

section \<open>The patch generator\<close>

text \<open>
  \<^verbatim>\<open>orig[key]\<close> for a value whose \<^verbatim>\<open>typeof\<close> is \<^verbatim>\<open>'object'\<close>: an own property of an object,
  or an element or the \<^verbatim>\<open>length\<close> of an array; \<open>None\<close> when the value has no own property
  of that name.

  The test \<^verbatim>\<open>key in orig\<close> of the source holds for an own property and also for a name
  that \<^verbatim>\<open>orig\<close> inherits from \<^verbatim>\<open>Object.prototype\<close> or \<^verbatim>\<open>Array.prototype\<close>. For an inherited
  name \<^verbatim>\<open>orig[key]\<close> is a built-in function or, for \<^verbatim>\<open>__proto__\<close>, the prototype object, and
  the call of \<^verbatim>\<open>createPatchForPath\<close> on it emits nothing: to \<^verbatim>\<open>typeof\<close> a function is
  neither \<^verbatim>\<open>'string'\<close> nor \<^verbatim>\<open>'object'\<close>, and it is no array; the members of the two
  prototype objects are functions again, the number \<^verbatim>\<open>Array.prototype.length\<close> (which is 0,
  so that no index is below it), and for \<^verbatim>\<open>__proto__\<close> the other prototype object or
  \<^verbatim>\<open>null\<close>. No string is ever reached that way. An inherited name thus leaves the patch as
  an absent name does, and \<open>None\<close> stands for both.
\<close>

fun getProp :: "json \<Rightarrow> string \<Rightarrow> json option" where
  "getProp (JObj es) key = map_of es key"
| "getProp (JArr xs) key =
     (case find (\<lambda>i. toString i = key) [0..<length xs] of
        Some i \<Rightarrow> Some (xs ! i)
      | None \<Rightarrow> if key = ''length'' then Some (JNum (int (length xs))) else None)"
| "getProp _ key = None"

text \<open>
  The names of the members of \<^verbatim>\<open>Object.prototype\<close>. Every object of the patch is created
  with \<^verbatim>\<open>{}\<close> and inherits them, so \<^verbatim>\<open>key in current\<close> holds for these names whether
  or not the object has an own property of the name.
\<close>

definition objectPrototypeNames :: "string list" where
  "objectPrototypeNames =
     [''constructor'', ''__defineGetter__'', ''__defineSetter__'', ''hasOwnProperty'',
      ''__lookupGetter__'', ''__lookupSetter__'', ''isPrototypeOf'', ''propertyIsEnumerable'',
      ''toString'', ''valueOf'', ''__proto__'', ''toLocaleString'']"

text \<open>
  How a run of the patch generator can end without returning a patch: an exception is
  thrown, or the walk of \<^verbatim>\<open>setValueAtPath\<close> enters a built-in object. The second is not a
  result of the code. It marks the point where \<^verbatim>\<open>current = current[key]\<close> follows an
  inherited name and \<^verbatim>\<open>current\<close> becomes a built-in function or \<^verbatim>\<open>Object.prototype\<close>
  itself; the assignments that follow land on that object, outside the patch, and what
  the code does from there on depends on the members of the built-in objects, which this
  model does not contain. The model follows no run beyond that point.
\<close>

datatype stop = Throws exn | EntersBuiltin

text \<open>
  \<^verbatim>\<open>setValueAtPath\<close> walks the patch along all keys of the path but the last, creating an
  empty object for a key for which \<^verbatim>\<open>key in current\<close> fails, and assigns the value under
  the last key. Its only caller passes a string as value. An object reached on the way
  is updated in place, so the model writes it back into its parent. With an empty path
  the loop body never runs and the value is stored under \<^verbatim>\<open>path[-1]\<close>, the key
  \<^verbatim>\<open>undefined\<close>. The final assignment \<^verbatim>\<open>current[key] = value\<close> defines or overwrites an own
  property, except for the key \<^verbatim>\<open>__proto__\<close>: there it runs the inherited setter, which
  ignores a string, and the patch stays as it is. On the way, a key that is no own
  property but the name of a member of \<^verbatim>\<open>Object.prototype\<close> leads into a built-in
  object. When the walk reaches a string, \<^verbatim>\<open>key in current\<close> or the final assignment
  raises a \<^verbatim>\<open>TypeError\<close> (the module is strict code).
\<close>

fun setValueAtPath :: "obj \<Rightarrow> string list \<Rightarrow> string \<Rightarrow> stop + obj" where
  "setValueAtPath current [] v = Inr (AList.update ''undefined'' (JStr v) current)"
| "setValueAtPath current [key] v =
     Inr (if key = ''__proto__'' then current else AList.update key (JStr v) current)"
| "setValueAtPath current (key # k # ks) v =
     (if map_of current key = None \<and> key \<in> set objectPrototypeNames then Inl EntersBuiltin
      else
        (let current1 =
           (if map_of current key = None then AList.update key (JObj []) current else current)
         in case map_of current1 key of
              Some (JObj sub) \<Rightarrow>
                (case setValueAtPath sub (k # ks) v of
                   Inl e \<Rightarrow> Inl e
                 | Inr sub' \<Rightarrow> Inr (AList.update key (JObj sub') current1))
            | _ \<Rightarrow> Inl (Throws TypeError)))"

text \<open>
  \<^verbatim>\<open>createPatchForPath\<close>, with the patch passed through. The three branches of the source:
  two different strings; two arrays, walked by \<^verbatim>\<open>trans.forEach\<close> with the test
  \<^verbatim>\<open>index < orig.length\<close>; two values of type \<^verbatim>\<open>'object'\<close> that are not both arrays, walked
  over \<^verbatim>\<open>Object.keys(trans)\<close> with the test \<^verbatim>\<open>key in orig\<close>. The keys of an array are the
  numerals of its indices; the keys of an object are pairwise distinct, so \<^verbatim>\<open>trans[key]\<close>
  is the value listed with the key.
\<close>

function (sequential) createPatchForPath :: "json \<Rightarrow> json \<Rightarrow> string list \<Rightarrow> obj \<Rightarrow> stop + obj"
  and patchArray :: "json list \<Rightarrow> json list \<Rightarrow> nat \<Rightarrow> string list \<Rightarrow> obj \<Rightarrow> stop + obj"
  and patchIndexKeys :: "json \<Rightarrow> json list \<Rightarrow> nat \<Rightarrow> string list \<Rightarrow> obj \<Rightarrow> stop + obj"
  and patchKeys :: "json \<Rightarrow> (string \<times> json) list \<Rightarrow> string list \<Rightarrow> obj \<Rightarrow> stop + obj" where
  "createPatchForPath (JStr origText) (JStr transText) path patch =
     (if origText \<noteq> transText then setValueAtPath patch path transText else Inr patch)"
| "createPatchForPath (JArr origItems) (JArr transItems) path patch =
     patchArray origItems transItems 0 path patch"
| "createPatchForPath (JObj origEntries) (JArr transItems) path patch =
     patchIndexKeys (JObj origEntries) transItems 0 path patch"
| "createPatchForPath (JArr origItems) (JObj transEntries) path patch =
     patchKeys (JArr origItems) transEntries path patch"
| "createPatchForPath (JObj origEntries) (JObj transEntries) path patch =
     patchKeys (JObj origEntries) transEntries path patch"
| "createPatchForPath _ _ path patch = Inr patch"
| "patchArray orig [] index path patch = Inr patch"
| "patchArray orig (item # rest) index path patch =
     (if index < length orig
      then (case createPatchForPath (orig ! index) item (path @ [toString index]) patch of
              Inl e \<Rightarrow> Inl e
            | Inr patch' \<Rightarrow> patchArray orig rest (Suc index) path patch')
      else patchArray orig rest (Suc index) path patch)"
| "patchIndexKeys orig [] index path patch = Inr patch"
| "patchIndexKeys orig (item # rest) index path patch =
     (case getProp orig (toString index) of
        Some origItem \<Rightarrow>
          (case createPatchForPath origItem item (path @ [toString index]) patch of
             Inl e \<Rightarrow> Inl e
           | Inr patch' \<Rightarrow> patchIndexKeys orig rest (Suc index) path patch')
      | None \<Rightarrow> patchIndexKeys orig rest (Suc index) path patch)"
| "patchKeys orig [] path patch = Inr patch"
| "patchKeys orig ((key, v) # rest) path patch =
     (case getProp orig key of
        Some origValue \<Rightarrow>
          (case createPatchForPath origValue v (path @ [key]) patch of
             Inl e \<Rightarrow> Inl e
           | Inr patch' \<Rightarrow> patchKeys orig rest path patch')
      | None \<Rightarrow> patchKeys orig rest path patch)"
  by pat_completeness auto

termination
  by (relation "measure (\<lambda>x. case x of
        Inl (Inl (orig, tr, path, patch)) \<Rightarrow> 2 * size tr + 1
      | Inl (Inr (orig, items, index, path, patch)) \<Rightarrow> 2 * size (JArr items)
      | Inr (Inl (orig, items, index, path, patch)) \<Rightarrow> 2 * size (JArr items)
      | Inr (Inr (orig, entries, path, patch)) \<Rightarrow> 2 * size (JObj entries))")
    auto

definition createPatch :: "json \<Rightarrow> json \<Rightarrow> stop + json" where
  "createPatch original translated =
     (case createPatchForPath original translated [] [] of
        Inl e \<Rightarrow> Inl e
      | Inr patch \<Rightarrow> Inr (JObj patch))"

section \<open>The translation service\<close>

text \<open>
  Jobs, batches and sessions as the interfaces of the source declare them. The fields
  that only hold a fresh identifier or a clock reading (\<^verbatim>\<open>id\<close>, \<^verbatim>\<open>timestamp\<close>, \<^verbatim>\<open>startTime\<close>,
  \<^verbatim>\<open>endTime\<close>) are left out: no code modelled here reads them. The progress of a batch,
  \<^verbatim>\<open>done / total * 100\<close>, is kept as the two counts. A log entry keeps its level and what
  its text reports.
\<close>

datatype jobStatus = JPending | JTranslating | JCompleted | JError | JSkipped

datatype batchStatus = BPending | BProcessing | BCompleted | BError

datatype sessionStatus = SIdle | SProcessing | SCompleted | SPaused | SError

record translationJob =
  originalText :: string
  translatedText :: "string option"
  sourceLanguage :: string
  targetLanguage :: string
  status :: jobStatus
  error :: "string option"
  retryCount :: nat

record translationBatch =
  jobs :: "translationJob list"
  bstatus :: batchStatus
  progress :: "nat \<times> nat"

datatype logLevel = LInfo | LWarning | LError | LSuccess

datatype logMessage =
    Starting nat nat
  | CacheHit string
  | Detected string string
  | Translated string string
  | Retry nat nat string
  | FailedToTranslate string string
  | TranslationCompleted
  | TranslationFailed exn
  | Resuming
  | ResumedAndCompleted
  | ResumeFailed exn
  | Paused
  | Stopped
  | FinalGenerated
  | FinalFailed exn

record translationLog =
  level :: logLevel
  message :: logMessage

record translationSession =
  sessionSourceLanguage :: string
  sessionTargetLanguage :: string
  originalJson :: json
  translatedJson :: "json option"
  batches :: "translationBatch list"
  totalStrings :: nat
  translatedStrings :: nat
  skippedStrings :: nat
  errorStrings :: nat
  sstatus :: sessionStatus
  logs :: "translationLog list"

record translationConfig =
  configSourceLanguage :: string
  configTargetLanguage :: string
  batchSize :: nat
  maxRetries :: nat

text \<open>
  The collaborators. Each attempt to process a job consumes one answer of the
  environment: what the cache lookup returns, what language detection returns, whether
  the translate call fails (with a message) or returns a text, and whether
  \<^verbatim>\<open>pauseTranslation\<close> was called while the attempt or the back-off after it was
  awaited. The cache, the rate limiter and language detection never fail towards the
  service: all three catch their own errors. An event records a call made to a
  collaborator or a timer that was set.
\<close>

record attempt =
  cached :: "string option"
  detected :: string
  response :: "string + string"
  pauseArrives :: bool

type_synonym env = "nat \<Rightarrow> attempt"

datatype event =
    CacheGet string string string
  | WaitForSlot
  | DetectLanguage string
  | Translate string string string
  | CacheSet string string string string
  | Backoff nat

text \<open>
  \<^verbatim>\<open>processJob\<close>. It returns the job as it leaves it, the log entries it adds, the
  events, the number of the next attempt and whether a pause arrived. A cached text
  counts when it is truthy, that is, not empty.
\<close>

function processJob ::
  "env \<Rightarrow> nat \<Rightarrow> nat \<Rightarrow> translationJob \<Rightarrow>
   translationJob \<times> translationLog list \<times> event list \<times> nat \<times> bool" where
  "processJob world n maxR job =
     (let job1 = job\<lparr>status := JTranslating\<rparr>;
          a = world n;
          lookup = [CacheGet (originalText job) (sourceLanguage job) (targetLanguage job)]
      in case (case cached a of None \<Rightarrow> None | Some c \<Rightarrow> if c = [] then None else Some c) of
           Some cachedResult \<Rightarrow>
             (job1\<lparr>translatedText := Some cachedResult, status := JCompleted\<rparr>,
              [\<lparr>level = LInfo, message = CacheHit (take 50 (originalText job))\<rparr>],
              lookup, Suc n, pauseArrives a)
         | None \<Rightarrow>
             (let auto = (sourceLanguage job = ''auto'');
                  src = (if auto then detected a else sourceLanguage job);
                  calls = lookup @ [WaitForSlot]
                    @ (if auto then [DetectLanguage (originalText job)] else [])
                    @ [Translate (originalText job) src (targetLanguage job)];
                  said = (if auto
                          then [\<lparr>level = LInfo, message = Detected src (take 30 (originalText job))\<rparr>]
                          else [])
              in case response a of
                   Inr text \<Rightarrow>
                     (job1\<lparr>translatedText := Some text, status := JCompleted\<rparr>,
                      said @ [\<lparr>level = LInfo, message = Translated (originalText job) text\<rparr>],
                      calls @ [CacheSet (originalText job) src (targetLanguage job) text],
                      Suc n, pauseArrives a)
                 | Inl msg \<Rightarrow>
                     (let job2 = job1\<lparr>retryCount := retryCount job + 1\<rparr>
                      in if retryCount job2 \<le> maxR
                         then (case processJob world (Suc n) maxR job2 of
                                 (job', said', calls', n', p') \<Rightarrow>
                                   (job',
                                    said @ [\<lparr>level = LWarning,
                                             message = Retry (retryCount job2) maxR (originalText job)\<rparr>]
                                      @ said',
                                    calls @ [Backoff (2 ^ retryCount job2 * 1000)] @ calls',
                                    n', pauseArrives a \<or> p'))
                         else (job2\<lparr>status := JError, error := Some msg\<rparr>,
                               said @ [\<lparr>level = LError,
                                        message = FailedToTranslate (originalText job) msg\<rparr>],
                               calls, Suc n, pauseArrives a))))"
  by pat_completeness auto

termination
  by (relation "measure (\<lambda>(world, n, maxR, job). Suc maxR - retryCount job)") auto

declare processJob.simps [simp del]

text \<open>
  The state of a run: the session being processed (the object that \<^verbatim>\<open>currentSession\<close>
  and the parameter \<^verbatim>\<open>session\<close> both refer to), the flag \<^verbatim>\<open>pauseRequested\<close>, the number
  of the next attempt and the events so far, each with the batch and job position it
  was made for.
\<close>

record run =
  session :: translationSession
  pauseRequested :: bool
  tick :: nat
  trace :: "(nat \<times> nat \<times> event) list"

definition addLog :: "logLevel \<Rightarrow> logMessage \<Rightarrow> translationSession \<Rightarrow> translationSession" where
  "addLog l m s = s\<lparr>logs := logs s @ [\<lparr>level = l, message = m\<rparr>]\<rparr>"

text \<open>
  \<^verbatim>\<open>pauseTranslation\<close> while the service is processing; where among the log entries of
  the attempt its entry lands is not modelled.
\<close>

definition pauseTranslation :: "run \<Rightarrow> run" where
  "pauseTranslation r =
     r\<lparr>pauseRequested := True, session := addLog LInfo Paused ((session r)\<lparr>sstatus := SPaused\<rparr>)\<rparr>"

definition isPendingOrError :: "translationJob \<Rightarrow> bool" where
  "isPendingOrError job = (status job = JPending \<or> status job = JError)"

definition isDone :: "translationJob \<Rightarrow> bool" where
  "isDone job = (status job = JCompleted \<or> status job = JSkipped)"

definition setBatch :: "nat \<Rightarrow> translationBatch \<Rightarrow> translationSession \<Rightarrow> translationSession" where
  "setBatch bi b s = s\<lparr>batches := (batches s)[bi := b]\<rparr>"

text \<open>
  The loop of \<^verbatim>\<open>processBatch\<close> over the jobs that were pending or in error when the batch
  was entered, given by their positions; a job is updated in place.
\<close>

fun processPending :: "env \<Rightarrow> nat \<Rightarrow> nat \<Rightarrow> nat list \<Rightarrow> run \<Rightarrow> run" where
  "processPending world maxR bi [] r = r"
| "processPending world maxR bi (i # rest) r =
     (if pauseRequested r then r
      else
        (case processJob world (tick r) maxR (jobs (batches (session r) ! bi) ! i) of
           (job', said, calls, n', p) \<Rightarrow>
             (let b = batches (session r) ! bi;
                  js = (jobs b)[i := job'];
                  b' = b\<lparr>jobs := js, progress := (length (filter isDone js), length js)\<rparr>;
                  s' = (setBatch bi b' (session r))\<lparr>logs := logs (session r) @ said\<rparr>;
                  r' = r\<lparr>session := s', tick := n', trace := trace r @ map (\<lambda>e. (bi, i, e)) calls\<rparr>
              in processPending world maxR bi rest (if p then pauseTranslation r' else r'))))"

definition processBatch :: "env \<Rightarrow> nat \<Rightarrow> nat \<Rightarrow> run \<Rightarrow> run" where
  "processBatch world maxR bi r =
     (let b = (batches (session r) ! bi)\<lparr>bstatus := BProcessing\<rparr>;
          r1 = r\<lparr>session := setBatch bi b (session r)\<rparr>;
          pendingJobs = filter (\<lambda>i. isPendingOrError (jobs b ! i)) [0..<length (jobs b)];
          r2 = processPending world maxR bi pendingJobs r1
      in if \<not> pauseRequested r2
         then r2\<lparr>session := setBatch bi ((batches (session r2) ! bi)\<lparr>bstatus := BCompleted\<rparr>) (session r2)\<rparr>
         else r2)"

definition updateSessionProgress :: "translationSession \<Rightarrow> translationSession" where
  "updateSessionProgress s =
     s\<lparr>translatedStrings :=
         sum_list (map (\<lambda>b. length (filter (\<lambda>job. status job = JCompleted) (jobs b))) (batches s)),
       skippedStrings :=
         sum_list (map (\<lambda>b. length (filter (\<lambda>job. status job = JSkipped) (jobs b))) (batches s)),
       errorStrings :=
         sum_list (map (\<lambda>b. length (filter (\<lambda>job. status job = JError) (jobs b))) (batches s))\<rparr>"

fun batchLoop :: "env \<Rightarrow> nat \<Rightarrow> nat list \<Rightarrow> run \<Rightarrow> run" where
  "batchLoop world maxR [] r = r"
| "batchLoop world maxR (bi # rest) r =
     (if pauseRequested r then r
      else if bstatus (batches (session r) ! bi) = BCompleted then batchLoop world maxR rest r
      else (let r1 = processBatch world maxR bi r
            in batchLoop world maxR rest (r1\<lparr>session := updateSessionProgress (session r1)\<rparr>)))"

text \<open>
  \<^verbatim>\<open>generateFinalResult\<close>. The counter \<^verbatim>\<open>uniqueIndex\<close> and the translation map are passed
  through the two loops over batches and jobs. \<^verbatim>\<open>job.translatedText\<close> counts when it is
  truthy. Reading \<^verbatim>\<open>.path\<close> of an occurrence that does not exist would raise; an exception
  is logged and thrown again.
\<close>

fun setOccurrences ::
  "occurrence list \<Rightarrow> string \<Rightarrow> nat list \<Rightarrow> translationMap \<Rightarrow> exn + translationMap" where
  "setOccurrences allStrings text [] tm = Inr tm"
| "setOccurrences allStrings text (originalIndex # rest) tm =
     (if originalIndex < length allStrings
      then setOccurrences allStrings text rest
             (tm(joinDot (fst (allStrings ! originalIndex)) \<mapsto> text))
      else Inl TypeError)"

fun mapJobs ::
  "occurrence list \<Rightarrow> uniqueString list \<Rightarrow> translationJob list \<Rightarrow> nat \<times> translationMap \<Rightarrow>
   exn + nat \<times> translationMap" where
  "mapJobs allStrings uniqueStrings [] (uniqueIndex, tm) = Inr (uniqueIndex, tm)"
| "mapJobs allStrings uniqueStrings (job # rest) (uniqueIndex, tm) =
     (case (if status job = JCompleted then translatedText job else None) of
        None \<Rightarrow> mapJobs allStrings uniqueStrings rest (uniqueIndex, tm)
      | Some text \<Rightarrow>
          if text = [] then mapJobs allStrings uniqueStrings rest (uniqueIndex, tm)
          else if uniqueIndex < length uniqueStrings
          then (case setOccurrences allStrings text
                       (originalIndices (uniqueStrings ! uniqueIndex)) tm of
                  Inl e \<Rightarrow> Inl e
                | Inr tm' \<Rightarrow> mapJobs allStrings uniqueStrings rest (Suc uniqueIndex, tm'))
          else mapJobs allStrings uniqueStrings rest (Suc uniqueIndex, tm))"

fun mapBatches ::
  "occurrence list \<Rightarrow> uniqueString list \<Rightarrow> translationBatch list \<Rightarrow> nat \<times> translationMap \<Rightarrow>
   exn + nat \<times> translationMap" where
  "mapBatches allStrings uniqueStrings [] acc = Inr acc"
| "mapBatches allStrings uniqueStrings (b # rest) acc =
     (case mapJobs allStrings uniqueStrings (jobs b) acc of
        Inl e \<Rightarrow> Inl e
      | Inr acc' \<Rightarrow> mapBatches allStrings uniqueStrings rest acc')"

definition buildTranslationMap :: "translationSession \<Rightarrow> exn + translationMap" where
  "buildTranslationMap s =
     (let allStrings = extractStrings (originalJson s) []
      in case deduplicateStrings allStrings of
           Inl e \<Rightarrow> Inl e
         | Inr (uniqueStrings, duplicateMap) \<Rightarrow>
             (case mapBatches allStrings uniqueStrings (batches s) (0, Map.empty) of
                Inl e \<Rightarrow> Inl e
              | Inr (uniqueIndex, tm) \<Rightarrow> Inr tm))"

definition generateFinalResult :: "translationSession \<Rightarrow> translationSession \<times> exn option" where
  "generateFinalResult s =
     (case buildTranslationMap s of
        Inl e \<Rightarrow> (addLog LError (FinalFailed e) s, Some e)
      | Inr tm \<Rightarrow>
          (addLog LSuccess FinalGenerated
             (s\<lparr>translatedJson := Some (applyTranslations (originalJson s) tm)\<rparr>),
           None))"

definition processBatches :: "env \<Rightarrow> nat \<Rightarrow> run \<Rightarrow> run \<times> exn option" where
  "processBatches world maxR r =
     (let r1 = batchLoop world maxR [0..<length (batches (session r))] r
      in if \<not> pauseRequested r1 \<and> sstatus (session r1) \<noteq> SError
         then (case generateFinalResult (session r1) of (s', x) \<Rightarrow> (r1\<lparr>session := s'\<rparr>, x))
         else (r1, None))"

text \<open>
  \<^verbatim>\<open>createBatches\<close>: the loop advances by \<^verbatim>\<open>batchSize\<close> and does not end when that is zero
  and there is a string, so it is a partial function; \<open>None\<close> is not returning.
\<close>

definition newJob :: "string \<Rightarrow> string \<Rightarrow> uniqueString \<Rightarrow> translationJob" where
  "newJob src tgt item =
     \<lparr>originalText = uvalue item, translatedText = None, sourceLanguage = src,
      targetLanguage = tgt, status = JPending, error = None, retryCount = 0\<rparr>"

partial_function (option) createBatchesFrom ::
  "string \<Rightarrow> string \<Rightarrow> uniqueString list \<Rightarrow> nat \<Rightarrow> nat \<Rightarrow> translationBatch list \<Rightarrow>
   translationBatch list option" where
  "createBatchesFrom src tgt strings bsize i acc =
     (if i < length strings
      then createBatchesFrom src tgt strings bsize (i + bsize)
             (acc @ [\<lparr>jobs = map (newJob src tgt) (take bsize (drop i strings)),
                      bstatus = BPending, progress = (0, 0)\<rparr>])
      else Some acc)"

declare createBatchesFrom.simps [code]

definition createBatches ::
  "string \<Rightarrow> string \<Rightarrow> uniqueString list \<Rightarrow> nat \<Rightarrow> translationBatch list option" where
  "createBatches src tgt strings bsize = createBatchesFrom src tgt strings bsize 0 []"

text \<open>
  The service object: the current session, \<^verbatim>\<open>isProcessing\<close> and \<^verbatim>\<open>pauseRequested\<close>. A call
  returns the service as it leaves it, the number of the next attempt, the events, and
  the session or the exception thrown to the caller.
\<close>

record service =
  currentSession :: "translationSession option"
  isProcessing :: bool
  servicePauseRequested :: bool

definition startTranslation ::
  "env \<Rightarrow> nat \<Rightarrow> service \<Rightarrow> json \<Rightarrow> translationConfig \<Rightarrow>
   (service \<times> nat \<times> (nat \<times> nat \<times> event) list \<times> (exn + translationSession)) option" where
  "startTranslation world n sv jsonData config =
     (if isProcessing sv
      then Some (sv, n, [], Inl (Error ''Translation already in progress''))
      else
        (let strings = extractStrings jsonData []
         in if length strings = 0
            then Some (sv, n, [], Inl (Error ''No translatable strings found in the JSON''))
            else
              (case deduplicateStrings strings of
                 Inl e \<Rightarrow> Some (sv, n, [], Inl e)
               | Inr (uniqueStrings, duplicateMap) \<Rightarrow>
                   (let s0 = \<lparr>sessionSourceLanguage = configSourceLanguage config,
                              sessionTargetLanguage = configTargetLanguage config,
                              originalJson = jsonData, translatedJson = None, batches = [],
                              totalStrings = length strings, translatedStrings = 0,
                              skippedStrings = 0, errorStrings = 0, sstatus = SProcessing,
                              logs = []\<rparr>;
                        s1 = addLog LInfo (Starting (length strings) (length uniqueStrings)) s0
                    in case createBatches (sessionSourceLanguage s1) (sessionTargetLanguage s1)
                              uniqueStrings (batchSize config) of
                         None \<Rightarrow> None
                       | Some bs \<Rightarrow>
                           (case processBatches world (maxRetries config)
                                   \<lparr>session = s1\<lparr>batches := bs\<rparr>, pauseRequested = False,
                                    tick = n, trace = []\<rparr> of
                              (r, Some e) \<Rightarrow>
                                (let s' = addLog LError (TranslationFailed e)
                                            ((session r)\<lparr>sstatus := SError\<rparr>)
                                 in Some (\<lparr>currentSession = Some s', isProcessing = False,
                                           servicePauseRequested = pauseRequested r\<rparr>,
                                          tick r, trace r, Inl e))
                            | (r, None) \<Rightarrow>
                                (let s' = (if \<not> pauseRequested r
                                           then addLog LSuccess TranslationCompleted
                                                  ((session r)\<lparr>sstatus := SCompleted\<rparr>)
                                           else session r)
                                 in Some (\<lparr>currentSession = Some s', isProcessing = False,
                                           servicePauseRequested = pauseRequested r\<rparr>,
                                          tick r, trace r, Inr s')))))))"

text \<open>
  \<^verbatim>\<open>resumeTranslation\<close>; its retry budget is read from the environment variable
  \<^verbatim>\<open>NEXT_PUBLIC_MAX_RETRIES\<close>, a parameter here.
\<close>

definition resumeTranslation ::
  "env \<Rightarrow> nat \<Rightarrow> nat \<Rightarrow> service \<Rightarrow>
   service \<times> nat \<times> (nat \<times> nat \<times> event) list \<times> exn option" where
  "resumeTranslation world n envMaxRetries sv =
     (case currentSession sv of
        None \<Rightarrow> (sv, n, [], Some (Error ''No session to resume or already processing''))
      | Some s \<Rightarrow>
          if isProcessing sv
          then (sv, n, [], Some (Error ''No session to resume or already processing''))
          else
            (case processBatches world envMaxRetries
                    \<lparr>session = addLog LInfo Resuming (s\<lparr>sstatus := SProcessing\<rparr>),
                     pauseRequested = False, tick = n, trace = []\<rparr> of
               (r, Some e) \<Rightarrow>
                 (\<lparr>currentSession = Some (addLog LError (ResumeFailed e) ((session r)\<lparr>sstatus := SError\<rparr>)),
                   isProcessing = False, servicePauseRequested = pauseRequested r\<rparr>,
                  tick r, trace r, Some e)
             | (r, None) \<Rightarrow>
                 (\<lparr>currentSession =
                     Some (if \<not> pauseRequested r
                           then addLog LSuccess ResumedAndCompleted ((session r)\<lparr>sstatus := SCompleted\<rparr>)
                           else session r),
                   isProcessing = False, servicePauseRequested = pauseRequested r\<rparr>,
                  tick r, trace r, None)))"

text \<open>
  \<^verbatim>\<open>stopTranslation\<close>: it sets \<^verbatim>\<open>pauseRequested\<close> and clears \<^verbatim>\<open>isProcessing\<close> at once, whether or
  not a run is waiting for a collaborator at that moment.
\<close>

definition stopTranslation :: "service \<Rightarrow> service" where
  "stopTranslation sv =
     \<lparr>currentSession =
        map_option (\<lambda>s. addLog LInfo Stopped (s\<lparr>sstatus := SPaused\<rparr>)) (currentSession sv),
      isProcessing = False, servicePauseRequested = True\<rparr>"

text \<open>\<^verbatim>\<open>canResume\<close>, which decides whether the page offers to resume.\<close>

definition canResume :: "service \<Rightarrow> bool" where
  "canResume sv =
     ((case currentSession sv of None \<Rightarrow> False | Some s \<Rightarrow> sstatus s = SPaused) \<and> \<not> isProcessing sv)"

section \<open>Auxiliary notions for the proofs\<close>

definition indicesOf :: "occurrence list \<Rightarrow> string \<Rightarrow> nat list" where
  "indicesOf xs v = filter (\<lambda>i. snd (xs ! i) = v) [0..<length xs]"

definition groupInv :: "occurrence list \<Rightarrow> valueMap \<Rightarrow> bool" where
  "groupInv xs m \<longleftrightarrow> distinct (map fst m) \<and>
     (\<forall>v. map_of m v = (if v \<in> snd ` set xs then Some (indicesOf xs v) else None))"

text \<open>A tree in which no object has a key among the given names.\<close>

fun keysAvoid :: "string list \<Rightarrow> json \<Rightarrow> bool"
  and itemsAvoid :: "string list \<Rightarrow> json list \<Rightarrow> bool"
  and entriesAvoid :: "string list \<Rightarrow> (string \<times> json) list \<Rightarrow> bool" where
  "keysAvoid names (JArr xs) = itemsAvoid names xs"
| "keysAvoid names (JObj es) = entriesAvoid names es"
| "keysAvoid names _ = True"
| "itemsAvoid names [] = True"
| "itemsAvoid names (x # xs) = (keysAvoid names x \<and> itemsAvoid names xs)"
| "entriesAvoid names [] = True"
| "entriesAvoid names ((k, v) # es) = (k \<notin> set names \<and> keysAvoid names v \<and> entriesAvoid names es)"

text \<open>
  The text a string leaf at path \<open>p\<close> with value \<open>s\<close> ends up with under the
  translation map \<open>tr\<close>, and the tree in which every string leaf is replaced by what a
  function of its path and value gives.
\<close>

definition pick :: "translationMap \<Rightarrow> string list \<Rightarrow> string \<Rightarrow> string" where
  "pick tr p s = (case tr (joinDot p) of None \<Rightarrow> s | Some t \<Rightarrow> if t = [] then s else t)"

fun substJson :: "(string list \<Rightarrow> string \<Rightarrow> string) \<Rightarrow> json \<Rightarrow> string list \<Rightarrow> json"
  and substItems :: "(string list \<Rightarrow> string \<Rightarrow> string) \<Rightarrow> json list \<Rightarrow> nat \<Rightarrow> string list \<Rightarrow> json list"
  and substEntries :: "(string list \<Rightarrow> string \<Rightarrow> string) \<Rightarrow> (string \<times> json) list \<Rightarrow> string list \<Rightarrow> obj" where
  "substJson f (JStr s) path = JStr (f path s)"
| "substJson f (JArr xs) path = JArr (substItems f xs 0 path)"
| "substJson f (JObj es) path = JObj (substEntries f es path)"
| "substJson f v path = v"
| "substItems f [] index path = []"
| "substItems f (item # xs) index path =
     substJson f item (path @ [toString index]) # substItems f xs (Suc index) path"
| "substEntries f [] path = []"
| "substEntries f ((key, v) # es) path =
     (key, substJson f v (path @ [key])) # substEntries f es path"

text \<open>
  The node of a tree at a path: an object is entered by a key, an array by the decimal
  numeral of an index.
\<close>

fun child :: "json \<Rightarrow> string \<Rightarrow> json option" where
  "child (JObj es) k = map_of es k"
| "child (JArr xs) k = map_option (\<lambda>i. xs ! i) (find (\<lambda>i. toString i = k) [0..<length xs])"
| "child _ k = None"

fun valueAt :: "string list \<Rightarrow> json \<Rightarrow> json option" where
  "valueAt [] v = Some v"
| "valueAt (k # ks) v = (case child v k of None \<Rightarrow> None | Some c \<Rightarrow> valueAt ks c)"

text \<open>
  Two trees of the same structure: the same nesting, the same keys in the same order,
  arrays of the same lengths, equal leaves wherever the leaf is not a string.
\<close>

fun sameShape :: "json \<Rightarrow> json \<Rightarrow> bool"
  and sameItems :: "json list \<Rightarrow> json list \<Rightarrow> bool"
  and sameEntries :: "(string \<times> json) list \<Rightarrow> (string \<times> json) list \<Rightarrow> bool" where
  "sameShape (JStr a) (JStr b) = True"
| "sameShape (JArr xs) (JArr ys) = sameItems xs ys"
| "sameShape (JObj es) (JObj fs) = sameEntries es fs"
| "sameShape JNull JNull = True"
| "sameShape (JBool a) (JBool b) = (a = b)"
| "sameShape (JNum a) (JNum b) = (a = b)"
| "sameShape _ _ = False"
| "sameItems [] [] = True"
| "sameItems (x # xs) (y # ys) = (sameShape x y \<and> sameItems xs ys)"
| "sameItems _ _ = False"
| "sameEntries [] [] = True"
| "sameEntries ((k, x) # es) ((l, y) # fs) = (k = l \<and> sameShape x y \<and> sameEntries es fs)"
| "sameEntries _ _ = False"

text \<open>All string leaves of a tree with their paths, translatable or not.\<close>

fun stringLeaves :: "json \<Rightarrow> string list \<Rightarrow> occurrence list"
  and leavesItems :: "json list \<Rightarrow> nat \<Rightarrow> string list \<Rightarrow> occurrence list"
  and leavesEntries :: "(string \<times> json) list \<Rightarrow> string list \<Rightarrow> occurrence list" where
  "stringLeaves (JStr s) path = [(path, s)]"
| "stringLeaves (JArr xs) path = leavesItems xs 0 path"
| "stringLeaves (JObj es) path = leavesEntries es path"
| "stringLeaves _ path = []"
| "leavesItems [] index path = []"
| "leavesItems (item # xs) index path =
     stringLeaves item (path @ [toString index]) @ leavesItems xs (Suc index) path"
| "leavesEntries [] path = []"
| "leavesEntries ((key, v) # es) path =
     stringLeaves v (path @ [key]) @ leavesEntries es path"

text \<open>
  The identity map of a list of occurrences: the \<^verbatim>\<open>Map\<close> obtained by setting, for each
  occurrence in turn, the dot-joined path to the occurrence's own value.
\<close>

definition identityMap :: "occurrence list \<Rightarrow> translationMap" where
  "identityMap occs = foldl (\<lambda>m (p, v). m(joinDot p \<mapsto> v)) Map.empty occs"

text \<open>
  The patch as a function of the two trees: \<open>diffTree\<close> gives what \<^verbatim>\<open>createPatchForPath\<close>
  stores for a pair of nodes (nothing when it emits no leaf below the pair), built
  directly instead of by insertions into a shared object. \<open>insertAt\<close> puts a value at a
  path of a patch that is \<open>vacant\<close> there: nothing is stored at the path and every node
  on the way that exists is an object.
\<close>

definition wrap :: "obj \<Rightarrow> json option" where
  "wrap ds = (if ds = [] then None else Some (JObj ds))"

fun diffTree :: "json \<Rightarrow> json \<Rightarrow> json option"
  and diffItems :: "json \<Rightarrow> json list \<Rightarrow> nat \<Rightarrow> obj"
  and diffEntries :: "json \<Rightarrow> (string \<times> json) list \<Rightarrow> obj" where
  "diffTree (JStr a) (JStr b) = (if a \<noteq> b then Some (JStr b) else None)"
| "diffTree (JArr xs) (JArr ys) = wrap (diffItems (JArr xs) ys 0)"
| "diffTree (JObj es) (JArr ys) = wrap (diffItems (JObj es) ys 0)"
| "diffTree (JArr xs) (JObj fs) = wrap (diffEntries (JArr xs) fs)"
| "diffTree (JObj es) (JObj fs) = wrap (diffEntries (JObj es) fs)"
| "diffTree _ _ = None"
| "diffItems orig [] index = []"
| "diffItems orig (item # rest) index =
     (case getProp orig (toString index) of
        None \<Rightarrow> []
      | Some origItem \<Rightarrow>
          (case diffTree origItem item of None \<Rightarrow> [] | Some d \<Rightarrow> [(toString index, d)]))
     @ diffItems orig rest (Suc index)"
| "diffEntries orig [] = []"
| "diffEntries orig ((key, v) # rest) =
     (case getProp orig key of
        None \<Rightarrow> []
      | Some origValue \<Rightarrow>
          (case diffTree origValue v of None \<Rightarrow> [] | Some d \<Rightarrow> [(key, d)]))
     @ diffEntries orig rest"

definition patchOf :: "json \<Rightarrow> json \<Rightarrow> obj" where
  "patchOf original translated =
     (case (original, translated) of
        (JStr a, JStr b) \<Rightarrow> if a \<noteq> b then [(''undefined'', JStr b)] else []
      | _ \<Rightarrow> (case diffTree original translated of Some (JObj ds) \<Rightarrow> ds | _ \<Rightarrow> []))"

fun insertAt :: "string list \<Rightarrow> json \<Rightarrow> obj \<Rightarrow> obj" where
  "insertAt [] d p = p"
| "insertAt [k] d p = AList.update k d p"
| "insertAt (k # k' # ks) d p =
     (case map_of p k of
        Some (JObj s) \<Rightarrow> AList.update k (JObj (insertAt (k' # ks) d s)) p
      | _ \<Rightarrow> AList.update k (JObj (insertAt (k' # ks) d [])) p)"

fun vacant :: "string list \<Rightarrow> obj \<Rightarrow> bool" where
  "vacant [] p = False"
| "vacant [k] p = (map_of p k = None)"
| "vacant (k # k' # ks) p =
     (case map_of p k of None \<Rightarrow> True | Some (JObj s) \<Rightarrow> vacant (k' # ks) s | Some _ \<Rightarrow> False)"

text \<open>The own enumerable properties of a value, as \<^verbatim>\<open>Object.keys\<close> lists them.\<close>

fun entriesOf :: "json \<Rightarrow> (string \<times> json) list" where
  "entriesOf (JObj es) = es"
| "entriesOf (JArr xs) = zip (map toString [0..<length xs]) xs"
| "entriesOf _ = []"

fun isContainer :: "json \<Rightarrow> bool" where
  "isContainer (JObj es) = True"
| "isContainer (JArr xs) = True"
| "isContainer _ = False"

text \<open>
  Modelled from the spec: applying a patch as overrides onto a tree. The repository has
  no function that applies a patch; the specification describes it as overwriting
  exactly the leaf paths present in the patch and leaving all other nodes of the original
  unchanged. A patch object is followed into an object by key and into an array by the
  numeral of the index; a patch value that is not an object replaces the node it meets;
  a patch object that meets a leaf changes nothing.
\<close>

fun override :: "json \<Rightarrow> json \<Rightarrow> json"
  and overrideItems :: "json list \<Rightarrow> nat \<Rightarrow> obj \<Rightarrow> json list"
  and overrideEntries :: "(string \<times> json) list \<Rightarrow> obj \<Rightarrow> (string \<times> json) list" where
  "override (JObj es) (JObj ps) = JObj (overrideEntries es ps)"
| "override (JArr xs) (JObj ps) = JArr (overrideItems xs 0 ps)"
| "override v (JObj ps) = v"
| "override v leaf = leaf"
| "overrideItems [] index ps = []"
| "overrideItems (x # xs) index ps =
     (case map_of ps (toString index) of None \<Rightarrow> x | Some q \<Rightarrow> override x q)
     # overrideItems xs (Suc index) ps"
| "overrideEntries [] ps = []"
| "overrideEntries ((k, v) # es) ps =
     (k, case map_of ps k of None \<Rightarrow> v | Some q \<Rightarrow> override v q) # overrideEntries es ps"


subsection \<open>Notions for stating the properties of the translation service\<close>

text \<open>
  An attempt hits the cache when the lookup returns a non-empty text; it fails when it
  misses the cache and the translate call fails. \<open>afterLookup\<close> lists the calls one attempt
  makes after its cache lookup.
\<close>

definition cacheHit :: "attempt \<Rightarrow> bool" where
  "cacheHit a = (case cached a of None \<Rightarrow> False | Some c \<Rightarrow> c \<noteq> [])"

definition failed :: "attempt \<Rightarrow> bool" where
  "failed a = (\<not> cacheHit a \<and> isl (response a))"

definition afterLookup :: "translationJob \<Rightarrow> attempt \<Rightarrow> event list" where
  "afterLookup job a =
     (if cacheHit a then []
      else [WaitForSlot]
        @ (if sourceLanguage job = ''auto'' then [DetectLanguage (originalText job)] else [])
        @ [Translate (originalText job)
             (if sourceLanguage job = ''auto'' then detected a else sourceLanguage job)
             (targetLanguage job)]
        @ (case response a of
             Inl msg \<Rightarrow> []
           | Inr text \<Rightarrow>
               [CacheSet (originalText job)
                  (if sourceLanguage job = ''auto'' then detected a else sourceLanguage job)
                  (targetLanguage job) text]))"

text \<open>The order of two positions (batch, job) in the iteration over batches and jobs.\<close>

definition notAfter :: "nat \<times> nat \<times> event \<Rightarrow> nat \<times> nat \<times> event \<Rightarrow> bool" where
  "notAfter x y = (fst x < fst y \<or> (fst x = fst y \<and> fst (snd x) \<le> fst (snd y)))"

section \<open>Basic facts\<close>

lemma update_fresh: "k \<notin> fst ` set al \<Longrightarrow> AList.update k v al = al @ [(k, v)]"
  by (induction al) auto


section \<open>The deduplicator partitions the occurrences\<close>

lemma indicesOf_snoc:
  "indicesOf (xs @ [x]) v = indicesOf xs v @ (if snd x = v then [length xs] else [])"
  by (auto simp: indicesOf_def nth_append intro!: filter_cong)

lemma indicesOf_empty_iff: "indicesOf xs v = [] \<longleftrightarrow> v \<notin> snd ` set xs"
proof -
  have "(\<exists>i<length xs. snd (xs ! i) = v) \<longleftrightarrow> v \<in> snd ` set xs" (is "?L \<longleftrightarrow> ?R")
  proof
    assume ?L
    then obtain i where "i < length xs" "snd (xs ! i) = v" by blast
    then show ?R using nth_mem[of i xs] by (metis image_eqI)
  next
    assume ?R
    then obtain x where "x \<in> set xs" "v = snd x" by blast
    then obtain i where "i < length xs" "xs ! i = x" by (auto simp: in_set_conv_nth)
    then show ?L using \<open>v = snd x\<close> by blast
  qed
  then show ?thesis by (auto simp: indicesOf_def filter_empty_conv)
qed

lemma groupStep_inv:
  assumes "groupInv xs m"
  shows "groupInv (xs @ [x]) (groupStep m (length xs, x))"
proof -
  obtain p v where x: "x = (p, v)" by (cases x)
  show ?thesis
  proof (cases "v \<in> snd ` set xs")
    case True
    with assms x show ?thesis
      by (auto simp: groupInv_def distinct_update update_conv' indicesOf_snoc)
  next
    case False
    with assms x show ?thesis
      using indicesOf_empty_iff[of xs v]
      by (auto simp: groupInv_def distinct_update update_conv' indicesOf_snoc)
  qed
qed

lemma foldl_groupStep_inv: "groupInv xs (foldl groupStep [] (enumerate 0 xs))"
proof (induction xs rule: rev_induct)
  case Nil
  show ?case by (simp add: groupInv_def)
next
  case (snoc x xs)
  then show ?case
    by (simp add: enumerate_append_eq groupStep_inv del: groupStep.simps)
qed

lemma collect_Inr:
  "(\<And>x. x \<in> set xs \<Longrightarrow> f x = Inr (g x)) \<Longrightarrow> collect (map f xs) = Inr (map g xs)"
  by (induction xs) auto

lemma hd_indicesOf:
  assumes "v \<in> snd ` set xs"
  shows "hd (indicesOf xs v) < length xs" "snd (xs ! hd (indicesOf xs v)) = v"
    "\<forall>j < hd (indicesOf xs v). snd (xs ! j) \<noteq> v"
proof -
  let ?l = "indicesOf xs v"
  from assms have ne: "?l \<noteq> []" by (simp add: indicesOf_empty_iff)
  then have "hd ?l \<in> set ?l" by simp
  then show "hd ?l < length xs" "snd (xs ! hd ?l) = v"
    by (auto simp: indicesOf_def)
  have s: "sorted ?l" by (simp add: indicesOf_def sorted_wrt_filter)
  show "\<forall>j < hd ?l. snd (xs ! j) \<noteq> v"
  proof (intro allI impI notI)
    fix j assume j: "j < hd ?l" and "snd (xs ! j) = v"
    with \<open>hd ?l < length xs\<close> have "j \<in> set ?l" by (auto simp: indicesOf_def)
    with s ne have "hd ?l \<le> j"
      by (cases ?l) (auto)
    with j show False by simp
  qed
qed


text \<open>
  Claim C8. For every list of occurrences \<open>deduplicateStrings\<close> returns (it never raises),
  the values of the unique strings are pairwise distinct, the index list of each unique
  string holds exactly the indices of the occurrences whose value equals its value
  (equality of strings, nothing normalised), these index sets are pairwise disjoint and
  their union is the set of all occurrence indices, and the path of a unique string is
  the path of its first occurrence: the occurrence at the head of its index list, before
  which no occurrence has its value.
\<close>

theorem deduplicate_partition:
  "\<exists>unique duplicateMap. deduplicateStrings strings = Inr (unique, duplicateMap) \<and>
     distinct (map uvalue unique) \<and>
     (\<forall>u \<in> set unique.
        originalIndices u = filter (\<lambda>i. snd (strings ! i) = uvalue u) [0..<length strings] \<and>
        originalIndices u \<noteq> [] \<and>
        upath u = fst (strings ! hd (originalIndices u)) \<and>
        snd (strings ! hd (originalIndices u)) = uvalue u \<and>
        (\<forall>j < hd (originalIndices u). snd (strings ! j) \<noteq> uvalue u)) \<and>
     (\<Union>u \<in> set unique. set (originalIndices u)) = {..<length strings} \<and>
     (\<forall>u \<in> set unique. \<forall>u' \<in> set unique.
        u \<noteq> u' \<longrightarrow> set (originalIndices u) \<inter> set (originalIndices u') = {})"
proof -
  define m where "m = foldl groupStep [] (enumerate 0 strings)"
  define g where "g = (\<lambda>(v, l). \<lparr>upath = fst (strings ! hd l), uvalue = v, originalIndices = l\<rparr>)"
  have inv: "groupInv strings m" unfolding m_def by (rule foldl_groupStep_inv)
  then have dist: "distinct (map fst m)"
    and look: "\<And>v. map_of m v = (if v \<in> snd ` set strings then Some (indicesOf strings v) else None)"
    by (auto simp: groupInv_def)
  have mem: "v \<in> snd ` set strings \<and> l = indicesOf strings v" if "(v, l) \<in> set m" for v l
  proof -
    from that dist have "map_of m v = Some l" by simp
    with look[of v] show ?thesis by (auto split: if_splits)
  qed
  have mk: "mkUnique strings x = Inr (g x)" if "x \<in> set m" for x
  proof -
    obtain v l where x: "x = (v, l)" by (cases x)
    with that mem have v: "v \<in> snd ` set strings" and l: "l = indicesOf strings v" by auto
    from v have "l \<noteq> []" by (simp add: l indicesOf_empty_iff)
    moreover have "hd l < length strings" using hd_indicesOf(1)[OF v] l by simp
    ultimately show ?thesis by (cases l) (auto simp: x g_def)
  qed
  have res: "deduplicateStrings strings = Inr (map g m, m)"
    using collect_Inr[of m "mkUnique strings" g] mk
    by (simp add: deduplicateStrings_def m_def[symmetric])
  have vals: "map uvalue (map g m) = map fst m"
    by (auto simp: g_def split: prod.splits)
  have each: "originalIndices u = indicesOf strings (uvalue u) \<and> uvalue u \<in> snd ` set strings
      \<and> upath u = fst (strings ! hd (originalIndices u))" if "u \<in> set (map g m)" for u
    using that mem by (auto simp: g_def split: prod.splits)
  have p1: "distinct (map uvalue (map g m))" by (simp only: vals dist)
  have p2: "\<forall>u \<in> set (map g m).
        originalIndices u = filter (\<lambda>i. snd (strings ! i) = uvalue u) [0..<length strings] \<and>
        originalIndices u \<noteq> [] \<and>
        upath u = fst (strings ! hd (originalIndices u)) \<and>
        snd (strings ! hd (originalIndices u)) = uvalue u \<and>
        (\<forall>j < hd (originalIndices u). snd (strings ! j) \<noteq> uvalue u)"
  proof
    fix u assume u: "u \<in> set (map g m)"
    from each[OF u] have a: "originalIndices u = indicesOf strings (uvalue u)"
      and b: "uvalue u \<in> snd ` set strings"
      and c: "upath u = fst (strings ! hd (originalIndices u))" by auto
    show "originalIndices u = filter (\<lambda>i. snd (strings ! i) = uvalue u) [0..<length strings] \<and>
        originalIndices u \<noteq> [] \<and>
        upath u = fst (strings ! hd (originalIndices u)) \<and>
        snd (strings ! hd (originalIndices u)) = uvalue u \<and>
        (\<forall>j < hd (originalIndices u). snd (strings ! j) \<noteq> uvalue u)"
    proof (intro conjI)
      show "originalIndices u = filter (\<lambda>i. snd (strings ! i) = uvalue u) [0..<length strings]"
        using a by (simp only: indicesOf_def)
      show "originalIndices u \<noteq> []"
        using b indicesOf_empty_iff[of strings "uvalue u"] by (simp only: a) simp
      show "upath u = fst (strings ! hd (originalIndices u))" by (rule c)
      show "snd (strings ! hd (originalIndices u)) = uvalue u"
        using hd_indicesOf(2)[OF b] by (simp only: a)
      show "\<forall>j < hd (originalIndices u). snd (strings ! j) \<noteq> uvalue u"
        using hd_indicesOf(3)[OF b] by (simp only: a)
    qed
  qed
  have p3: "(\<Union>u \<in> set (map g m). set (originalIndices u)) = {..<length strings}"
  proof (intro equalityI subsetI)
    fix i assume "i \<in> (\<Union>u \<in> set (map g m). set (originalIndices u))"
    then obtain u where "u \<in> set (map g m)" "i \<in> set (originalIndices u)" by blast
    with each[of u] show "i \<in> {..<length strings}" by (auto simp: indicesOf_def)
  next
    fix i assume "i \<in> {..<length strings}"
    then have i: "i < length strings" by simp
    let ?v = "snd (strings ! i)"
    from i have "?v \<in> snd ` set strings" by (metis image_eqI nth_mem)
    with look[of ?v] have "map_of m ?v = Some (indicesOf strings ?v)" by simp
    then have "(?v, indicesOf strings ?v) \<in> set m" by (rule map_of_SomeD)
    then have "g (?v, indicesOf strings ?v) \<in> set (map g m)" by simp
    moreover have "i \<in> set (originalIndices (g (?v, indicesOf strings ?v)))"
      using i by (simp add: g_def indicesOf_def)
    ultimately show "i \<in> (\<Union>u \<in> set (map g m). set (originalIndices u))" by blast
  qed
  have p4: "\<forall>u \<in> set (map g m). \<forall>u' \<in> set (map g m).
        u \<noteq> u' \<longrightarrow> set (originalIndices u) \<inter> set (originalIndices u') = {}"
  proof (intro ballI impI)
    fix u u' assume u: "u \<in> set (map g m)" and u': "u' \<in> set (map g m)" and ne: "u \<noteq> u'"
    have "uvalue u \<noteq> uvalue u'"
    proof
      assume eq: "uvalue u = uvalue u'"
      with each[OF u] each[OF u'] have "u = u'" by (cases u, cases u') auto
      with ne show False by simp
    qed
    with each[OF u] each[OF u'] show "set (originalIndices u) \<inter> set (originalIndices u') = {}"
      by (auto simp: indicesOf_def)
  qed
  show ?thesis
    by (intro exI[of _ "map g m"] exI[of _ m] conjI res p1 p2 p3 p4)
qed

theorem deduplicate_partition_witness:
  "deduplicateStrings
     [([''a''], ''Hello''), ([''b'', ''0''], ''Hello''), ([''b'', ''1''], ''World'')] =
   Inr ([\<lparr>upath = [''a''], uvalue = ''Hello'', originalIndices = [0, 1]\<rparr>,
         \<lparr>upath = [''b'', ''1''], uvalue = ''World'', originalIndices = [2]\<rparr>],
        [(''Hello'', [0, 1]), (''World'', [2])])"
proof -
  note part = deduplicate_partition
    [of "[([''a''], ''Hello''), ([''b'', ''0''], ''Hello''), ([''b'', ''1''], ''World'')]"]
  have ev: "deduplicateStrings
     [([''a''], ''Hello''), ([''b'', ''0''], ''Hello''), ([''b'', ''1''], ''World'')] =
   Inr ([\<lparr>upath = [''a''], uvalue = ''Hello'', originalIndices = [0, 1]\<rparr>,
         \<lparr>upath = [''b'', ''1''], uvalue = ''World'', originalIndices = [2]\<rparr>],
        [(''Hello'', [0, 1]), (''World'', [2])])"
    by code_simp
  from part ev show ?thesis by simp
qed

section \<open>The tree walker rebuilds the tree leaf by leaf\<close>

lemma fst_substEntries: "map fst (substEntries f es path) = map fst es"
  by (induction es) auto

lemma apply_is_subst:
  "wf_json v \<Longrightarrow> keysAvoid [''__proto__''] v \<Longrightarrow>
     applyToValue tr v path = substJson (pick tr) v path"
  "wf_items xs \<Longrightarrow> itemsAvoid [''__proto__''] xs \<Longrightarrow>
     applyItems tr xs index path = substItems (pick tr) xs index path"
  "wf_entries es \<Longrightarrow> entriesAvoid [''__proto__''] es \<Longrightarrow> distinct (map fst es) \<Longrightarrow>
     fst ` set newObj \<inter> fst ` set es = {} \<Longrightarrow>
     applyEntries tr es path newObj = newObj @ substEntries (pick tr) es path"
proof (induction tr v path and tr xs index path and tr es path newObj
    rule: applyToValue_applyItems_applyEntries.induct)
  case (1 tr s path)
  show ?case by (simp add: pick_def)
next
  case (8 tr key v es path newObj)
  from "8.prems" have k: "key \<notin> fst ` set newObj" by auto
  from "8.prems" have np: "key \<noteq> ''__proto__''" by simp
  let ?w = "applyToValue tr v (path @ [key])"
  have ih1: "?w = substJson (pick tr) v (path @ [key])"
    using "8.prems" np by (intro "8.IH"(1)) auto
  have "applyEntries tr es path (if key = ''__proto__'' then newObj else AList.update key ?w newObj) =
     (if key = ''__proto__'' then newObj else AList.update key ?w newObj) @ substEntries (pick tr) es path"
    using "8.prems" np by (intro "8.IH"(2)) (auto simp: update_fresh[OF k])
  with np have ih2: "applyEntries tr es path (AList.update key ?w newObj) =
     AList.update key ?w newObj @ substEntries (pick tr) es path" by simp
  show ?case
    using np by (simp add: ih2[unfolded update_fresh[OF k]] update_fresh[OF k] ih1[symmetric])
qed auto






lemma identityMap_Some:
  "identityMap occs k = Some v \<Longrightarrow> \<exists>p. (p, v) \<in> set occs \<and> joinDot p = k"
proof -
  have "foldl (\<lambda>m (p, v). m(joinDot p \<mapsto> v)) m0 occs k = Some v \<Longrightarrow>
      m0 k = Some v \<or> (\<exists>p. (p, v) \<in> set occs \<and> joinDot p = k)" for m0
    by (induction occs arbitrary: m0) (fastforce split: if_splits)+
  from this[of Map.empty] show "identityMap occs k = Some v \<Longrightarrow> ?thesis"
    by (simp add: identityMap_def)
qed

lemma extract_subset_leaves:
  "set (extractStrings v path) \<subseteq> set (stringLeaves v path)"
  "set (extractItems xs index path) \<subseteq> set (leavesItems xs index path)"
  "set (extractEntries es path) \<subseteq> set (leavesEntries es path)"
  by (induction v path and xs index path and es path rule: extractStrings_extractItems_extractEntries.induct) auto

lemma subst_fixed:
  "(\<And>p s. (p, s) \<in> set (stringLeaves v path) \<Longrightarrow> f p s = s) \<Longrightarrow> substJson f v path = v"
  "(\<And>p s. (p, s) \<in> set (leavesItems xs index path) \<Longrightarrow> f p s = s) \<Longrightarrow> substItems f xs index path = xs"
  "(\<And>p s. (p, s) \<in> set (leavesEntries es path) \<Longrightarrow> f p s = s) \<Longrightarrow> substEntries f es path = es"
  by (induction f v path and f xs index path and f es path rule: substJson_substItems_substEntries.induct) auto

lemma shouldTranslateI:
  assumes "text \<noteq> []" "2 \<le> length (trim text)"
    "\<not> test URL_PATTERN text" "\<not> test EMAIL_PATTERN text" "\<not> test HEX_COLOR_PATTERN text"
    "\<not> test NUMBER_PATTERN (trim text)"
    "2 * sum_list (matchLengths PLACEHOLDER_PATTERN text @ matchLengths VARIABLE_PATTERN text) \<le> length text"
    "sum_list (matchLengths HTML_TAG_PATTERN text) = 0"
    "\<not> list_ex (\<lambda>pattern. test pattern (trim text)) technicalPatterns"
  shows "shouldTranslate text"
proof -
  have h: "\<not> exceedsSevenTenths (sum_list (matchLengths HTML_TAG_PATTERN text)) (length text)"
    unfolding assms(8) by (simp add: exceedsSevenTenths_def)
  from assms(2) have t: "length (trim text) \<noteq> 0" "\<not> length (trim text) < 2" by auto
  from assms(7) have m: "\<not> 2 * sum_list (matchLengths PLACEHOLDER_PATTERN text @ matchLengths VARIABLE_PATTERN text) > length text"
    by simp
  show ?thesis
    unfolding shouldTranslate_def Let_def
    by (simp only: assms(1,3,4,5,6,9) h t m if_False not_False_eq_True)
qed

lemma shouldTranslate_Hello: "shouldTranslate ''Hello''"
  by (rule shouldTranslateI; code_simp)

lemma shouldTranslate_World: "shouldTranslate ''World''"
  by (rule shouldTranslateI; code_simp)


text \<open>
  An own key \<^verbatim>\<open>__proto__\<close> of the input is not a key of the result, whatever its value.
\<close>

lemma applyTranslations_proto_key:
  "applyTranslations (JObj [(''__proto__'', JStr ''Hello world''), (''a'', JStr ''Hello'')])
     [''a'' \<mapsto> ''Bonjour''] = JObj [(''a'', JStr ''Bonjour'')]"
  "applyTranslations (JObj [(''__proto__'', JObj [(''t'', JStr ''Hello world'')]), (''a'', JStr ''Hello'')])
     Map.empty = JObj [(''a'', JStr ''Hello'')]"
  by (simp_all add: applyTranslations_def cloneDeep_def)




text \<open>
  Claim C2, as amended. For every tree with pairwise distinct keys in each object, none
  of them the key \<^verbatim>\<open>__proto__\<close>, in which no two different string leaves have the same
  dot-joined path, applying the identity map of the extracted occurrences returns the
  tree itself.
\<close>

theorem extract_apply_identity:
  assumes "wf_json tree" and "keysAvoid [''__proto__''] tree"
    and "\<forall>l \<in> set (stringLeaves tree []). \<forall>l' \<in> set (stringLeaves tree []).
           joinDot (fst l) = joinDot (fst l') \<longrightarrow> l = l'"
  shows "applyTranslations tree (identityMap (extractStrings tree [])) = tree"
proof -
  let ?M = "identityMap (extractStrings tree [])"
  have fixed: "pick ?M p s = s" if l: "(p, s) \<in> set (stringLeaves tree [])" for p s
  proof (cases "?M (joinDot p)")
    case None
    then show ?thesis by (simp add: pick_def)
  next
    case (Some v)
    from identityMap_Some[OF Some] obtain p' where
      p': "(p', v) \<in> set (extractStrings tree [])" "joinDot p' = joinDot p" by blast
    from p'(1) extract_subset_leaves(1)[of tree "[]"] have "(p', v) \<in> set (stringLeaves tree [])"
      by blast
    with assms(3) l p'(2) have "(p', v) = (p, s)" by force
    with Some show ?thesis by (simp add: pick_def)
  qed
  have "applyTranslations tree ?M = substJson (pick ?M) tree []"
    using assms(1,2) by (simp add: applyTranslations_def cloneDeep_def apply_is_subst(1))
  also have "\<dots> = tree"
    by (rule subst_fixed(1)) (rule fixed)
  finally show ?thesis .
qed

theorem extract_apply_identity_witness:
  "wf_json (JObj [(''a'', JStr ''Hello''), (''b'', JArr [JStr ''Hello'', JStr ''World''])]) \<and>
   keysAvoid [''__proto__''] (JObj [(''a'', JStr ''Hello''), (''b'', JArr [JStr ''Hello'', JStr ''World''])]) \<and>
   extractStrings (JObj [(''a'', JStr ''Hello''), (''b'', JArr [JStr ''Hello'', JStr ''World''])]) [] =
     [([''a''], ''Hello''), ([''b'', ''0''], ''Hello''), ([''b'', ''1''], ''World'')] \<and>
   applyTranslations (JObj [(''a'', JStr ''Hello''), (''b'', JArr [JStr ''Hello'', JStr ''World''])])
     (identityMap (extractStrings (JObj [(''a'', JStr ''Hello''), (''b'', JArr [JStr ''Hello'', JStr ''World''])]) []))
   = JObj [(''a'', JStr ''Hello''), (''b'', JArr [JStr ''Hello'', JStr ''World''])]"
proof -
  let ?T = "JObj [(''a'', JStr ''Hello''), (''b'', JArr [JStr ''Hello'', JStr ''World''])]"
  have wf: "wf_json ?T" by simp
  have np: "keysAvoid [''__proto__''] ?T" by simp
  have lv: "stringLeaves ?T [] = [([''a''], ''Hello''), ([''b'', ''0''], ''Hello''), ([''b'', ''1''], ''World'')]"
    by (simp add: toString.simps digitChar_def)
  have ex: "extractStrings ?T [] = [([''a''], ''Hello''), ([''b'', ''0''], ''Hello''), ([''b'', ''1''], ''World'')]"
    by (simp add: toString.simps digitChar_def shouldTranslate_Hello shouldTranslate_World)
  have inj: "\<forall>l \<in> set (stringLeaves ?T []). \<forall>l' \<in> set (stringLeaves ?T []).
           joinDot (fst l) = joinDot (fst l') \<longrightarrow> l = l'"
    unfolding lv by simp
  from extract_apply_identity[OF wf np inj] wf np ex show ?thesis by simp
qed

theorem extract_apply_identity_counterexample:
  "extractStrings (JObj [(''a.b'', JStr ''Hello''), (''a'', JObj [(''b'', JStr ''World'')])]) [] =
     [([''a.b''], ''Hello''), ([''a'', ''b''], ''World'')] \<and>
   applyTranslations (JObj [(''a.b'', JStr ''Hello''), (''a'', JObj [(''b'', JStr ''World'')])])
     (identityMap (extractStrings (JObj [(''a.b'', JStr ''Hello''), (''a'', JObj [(''b'', JStr ''World'')])]) []))
   = JObj [(''a.b'', JStr ''World''), (''a'', JObj [(''b'', JStr ''World'')])] \<and>
   JObj [(''a.b'', JStr ''World''), (''a'', JObj [(''b'', JStr ''World'')])] \<noteq>
   JObj [(''a.b'', JStr ''Hello''), (''a'', JObj [(''b'', JStr ''World'')])]"
  by (simp add: shouldTranslate_Hello shouldTranslate_World identityMap_def
      applyTranslations_def cloneDeep_def)

section \<open>The cache key is an injective encoding of the joined string\<close>

lemma base64Char_eq: "i < 64 \<Longrightarrow> j < 64 \<Longrightarrow> base64Char i = base64Char j \<longleftrightarrow> i = j"
  unfolding base64Char_def by (subst nth_eq_iff_index_eq) simp_all

lemma base64Char_pad: "i < 64 \<Longrightarrow> base64Char i \<noteq> CHR ''=''"
proof -
  assume "i < 64"
  then have "base64Char i \<in> set ''ABCDEFGHIJKLMNOPQRSTUVWXYZabcdefghijklmnopqrstuvwxyz0123456789+/''"
    unfolding base64Char_def by (intro nth_mem) simp
  then show ?thesis by auto
qed

lemma hexDigitOf_eq: "i < 16 \<Longrightarrow> j < 16 \<Longrightarrow> hexDigitOf i = hexDigitOf j \<longleftrightarrow> i = j"
  unfolding hexDigitOf_def by (subst nth_eq_iff_index_eq) simp_all

lemma percentByte_eq: "a < 256 \<Longrightarrow> b < 256 \<Longrightarrow> percentByte a = percentByte b \<longleftrightarrow> a = b"
proof -
  assume a: "a < 256" and b: "b < 256"
  then have "a div 16 < 16" "b div 16 < 16" "a mod 16 < 16" "b mod 16 < 16" by auto
  then have "percentByte a = percentByte b \<longleftrightarrow> a div 16 = b div 16 \<and> a mod 16 = b mod 16"
    by (simp add: percentByte_def hexDigitOf_eq)
  also have "\<dots> \<longleftrightarrow> a = b" by (metis div_mult_mod_eq)
  finally show ?thesis .
qed

lemma percentByte_append: "percentByte a @ r = percentByte b @ r' \<longleftrightarrow> percentByte a = percentByte b \<and> r = r'"
  by (auto simp: percentByte_def)

lemma unreserved_not_percent: "inRanges c unreserved \<Longrightarrow> c \<noteq> CHR ''%''"
  by (auto simp: unreserved_def)

lemma percentByte_hd: "\<exists>x y. percentByte a = [CHR ''%'', x, y]"
  by (simp add: percentByte_def)

lemma encodeChar_prefix:
  assumes "encodeChar c @ r = encodeChar d @ r'"
  shows "c = d \<and> r = r'"
proof -
  let ?n = "of_char c :: nat" and ?m = "of_char d :: nat"
  have bn: "?n < 256" and bm: "?m < 256" by simp_all
  consider (uu) "inRanges c unreserved" "inRanges d unreserved"
    | (ue) "inRanges c unreserved" "\<not> inRanges d unreserved"
    | (eu) "\<not> inRanges c unreserved" "inRanges d unreserved"
    | (ee) "\<not> inRanges c unreserved" "\<not> inRanges d unreserved" by blast
  then show ?thesis
  proof cases
    case uu
    with assms show ?thesis by (simp add: encodeChar_def)
  next
    case ue
    with assms unreserved_not_percent[OF ue(1)] show ?thesis
      by (auto simp: encodeChar_def percentByte_def split: if_splits)
  next
    case eu
    with assms unreserved_not_percent[OF eu(2)] show ?thesis
      by (auto simp: encodeChar_def percentByte_def split: if_splits)
  next
    case ee
    consider (ss) "?n < 128" "?m < 128" | (sl) "?n < 128" "\<not> ?m < 128"
      | (ls) "\<not> ?n < 128" "?m < 128" | (ll) "\<not> ?n < 128" "\<not> ?m < 128" by blast
    then show ?thesis
    proof cases
      case ss
      with ee assms have "percentByte ?n @ r = percentByte ?m @ r'" by (simp add: encodeChar_def)
      then have "?n = ?m \<and> r = r'" using bn bm by (simp add: percentByte_append percentByte_eq)
      then show ?thesis by simp
    next
      case sl
      with ee assms have "percentByte ?n @ r = percentByte (192 + ?m div 64) @ (percentByte (128 + ?m mod 64) @ r')"
        by (simp add: encodeChar_def)
      then have "percentByte ?n = percentByte (192 + ?m div 64)" by (simp add: percentByte_append)
      moreover have "192 + ?m div 64 < 256" using bm by arith
      ultimately have "?n = 192 + ?m div 64" using bn by (simp add: percentByte_eq)
      with sl show ?thesis by simp
    next
      case ls
      with ee assms have "percentByte (192 + ?n div 64) @ (percentByte (128 + ?n mod 64) @ r) = percentByte ?m @ r'"
        by (simp add: encodeChar_def)
      then have "percentByte (192 + ?n div 64) = percentByte ?m" by (simp add: percentByte_append)
      moreover have "192 + ?n div 64 < 256" using bn by arith
      ultimately have "192 + ?n div 64 = ?m" using bm by (simp add: percentByte_eq)
      with ls show ?thesis by simp
    next
      case ll
      with ee assms have "percentByte (192 + ?n div 64) @ (percentByte (128 + ?n mod 64) @ r)
          = percentByte (192 + ?m div 64) @ (percentByte (128 + ?m mod 64) @ r')"
        by (simp add: encodeChar_def)
      then have e: "percentByte (192 + ?n div 64) = percentByte (192 + ?m div 64)"
        "percentByte (128 + ?n mod 64) = percentByte (128 + ?m mod 64)" "r = r'"
        by (simp_all add: percentByte_append)
      have "192 + ?n div 64 < 256" "192 + ?m div 64 < 256" "128 + ?n mod 64 < 256" "128 + ?m mod 64 < 256"
        using bn bm by arith+
      with e have "?n div 64 = ?m div 64" "?n mod 64 = ?m mod 64"
        by (simp_all add: percentByte_eq)
      then have "?n = ?m" by (metis div_mult_mod_eq)
      with e(3) show ?thesis by simp
    qed
  qed
qed

lemma encodeURIComponent_inj: "encodeURIComponent s = encodeURIComponent s' \<Longrightarrow> s = s'"
proof (induction s arbitrary: s')
  case Nil
  then show ?case
  proof (cases s')
    case (Cons d ds)
    with Nil show ?thesis
      by (auto simp: encodeURIComponent_def encodeChar_def percentByte_def split: if_splits)
  qed simp
next
  case (Cons c cs)
  show ?case
  proof (cases s')
    case Nil
    with Cons.prems show ?thesis
      by (auto simp: encodeURIComponent_def encodeChar_def percentByte_def split: if_splits)
  next
    case (Cons d ds)
    with Cons.prems have "encodeChar c @ encodeURIComponent cs = encodeChar d @ encodeURIComponent ds"
      by (simp add: encodeURIComponent_def)
    from encodeChar_prefix[OF this] Cons.IH[of ds] Cons show ?thesis by simp
  qed
qed

lemma radix_inj:
  fixes x y x' y' k :: nat
  assumes "y < k" "y' < k" "x * k + y = x' * k + y'"
  shows "x = x' \<and> y = y'"
proof -
  from assms(1) have k: "0 < k" by simp
  have "(x * k + y) div k = x" "(x * k + y) mod k = y" using assms(1) k by simp_all
  moreover have "(x' * k + y') div k = x'" "(x' * k + y') mod k = y'" using assms(2) k by simp_all
  ultimately show ?thesis using assms(3) by simp
qed

lemma divmod_inj:
  fixes a a' k :: nat
  assumes "a div k = a' div k" "a mod k = a' mod k"
  shows "a = a'"
  using assms by (metis div_mult_mod_eq)

lemma sextet_bounds:
  fixes a b c :: nat
  assumes "a < 256" "b < 256" "c < 256"
  shows "a div 4 < 64" "(a mod 4) * 16 < 64" "(a mod 4) * 16 + b div 16 < 64"
    "(b mod 16) * 4 < 64" "(b mod 16) * 4 + c div 64 < 64" "c mod 64 < 64"
proof -
  have "a mod 4 < 4" "b mod 16 < 16" by simp_all
  moreover have "b div 16 < 16" "c div 64 < 4" "a div 4 < 64" using assms by simp_all
  ultimately show "a div 4 < 64" "(a mod 4) * 16 < 64" "(a mod 4) * 16 + b div 16 < 64"
    "(b mod 16) * 4 < 64" "(b mod 16) * 4 + c div 64 < 64" "c mod 64 < 64"
    by simp_all
qed

lemma sextet1_inj:
  fixes a a' :: nat
  assumes "a div 4 = a' div 4" "(a mod 4) * 16 = (a' mod 4) * 16"
  shows "a = a'"
  using assms by (intro divmod_inj[of a 4 a']) simp_all

lemma sextet2_inj:
  fixes a a' b b' :: nat
  assumes "b < 256" "b' < 256"
    "a div 4 = a' div 4" "(a mod 4) * 16 + b div 16 = (a' mod 4) * 16 + b' div 16"
    "(b mod 16) * 4 = (b' mod 16) * 4"
  shows "a = a' \<and> b = b'"
proof -
  have "b div 16 < 16" "b' div 16 < 16" using assms(1,2) by simp_all
  from radix_inj[OF this assms(4)] have "a mod 4 = a' mod 4" "b div 16 = b' div 16" by simp_all
  with assms(3,5) show ?thesis
    by (intro conjI divmod_inj[of a 4 a'] divmod_inj[of b 16 b']) simp_all
qed

lemma sextet3_inj:
  fixes a a' b b' c c' :: nat
  assumes "b < 256" "c < 256" "b' < 256" "c' < 256"
    "a div 4 = a' div 4" "(a mod 4) * 16 + b div 16 = (a' mod 4) * 16 + b' div 16"
    "(b mod 16) * 4 + c div 64 = (b' mod 16) * 4 + c' div 64" "c mod 64 = c' mod 64"
  shows "a = a' \<and> b = b' \<and> c = c'"
proof -
  have "b div 16 < 16" "b' div 16 < 16" using assms(1,3) by simp_all
  from radix_inj[OF this assms(6)] have 1: "a mod 4 = a' mod 4" "b div 16 = b' div 16" by simp_all
  have "c div 64 < 4" "c' div 64 < 4" using assms(2,4) by simp_all
  from radix_inj[OF this assms(7)] have 2: "b mod 16 = b' mod 16" "c div 64 = c' div 64" by simp_all
  from 1 2 assms(5,8) show ?thesis
    by (intro conjI divmod_inj[of a 4 a'] divmod_inj[of b 16 b'] divmod_inj[of c 64 c'])
qed

lemma btoaBytes_inj:
  "\<forall>x\<in>set xs. x < 256 \<Longrightarrow> \<forall>y\<in>set ys. y < 256 \<Longrightarrow> btoaBytes xs = btoaBytes ys \<Longrightarrow> xs = ys"
proof (induction xs arbitrary: ys rule: btoaBytes.induct)
  case 1
  then show ?case by (cases ys rule: btoaBytes.cases) auto
next
  case (2 a)
  then have a: "a < 256" by simp
  show ?case
  proof (cases ys rule: btoaBytes.cases)
    case 1
    with 2 show ?thesis by simp
  next
    case (2 a')
    with "2.prems" have a': "a' < 256" by simp
    from 2 "2.prems"(3) sextet_bounds[OF a a a] sextet_bounds[OF a' a' a']
    have "a div 4 = a' div 4" "(a mod 4) * 16 = (a' mod 4) * 16"
      by (simp_all add: base64Char_eq)
    from sextet1_inj[OF this] 2 show ?thesis by simp
  next
    case (3 a' b')
    with "2.prems" have a': "a' < 256" "b' < 256" by simp_all
    from 3 "2.prems"(3) sextet_bounds(4)[OF a'(2) a'(2) a'(2)] base64Char_pad[of "(b' mod 16) * 4"]
    show ?thesis by auto
  next
    case (4 a' b' c' rest)
    with "2.prems" have a': "a' < 256" "b' < 256" "c' < 256" by simp_all
    from 4 "2.prems"(3) sextet_bounds(5)[OF a'(2) a'(2) a'(3)] base64Char_pad[of "(b' mod 16) * 4 + c' div 64"]
    show ?thesis by auto
  qed
next
  case (3 a b)
  then have a: "a < 256" "b < 256" by simp_all
  show ?case
  proof (cases ys rule: btoaBytes.cases)
    case 1
    with 3 show ?thesis by simp
  next
    case (2 a')
    from 2 "3.prems"(3) sextet_bounds(4)[OF a(2) a(2) a(2)] base64Char_pad[of "(b mod 16) * 4"]
    show ?thesis by auto
  next
    case (3 a' b')
    with "3.prems" have a': "a' < 256" "b' < 256" by simp_all
    from 3 "3.prems"(3) sextet_bounds[OF a(1) a(2) a(2)] sextet_bounds[OF a'(1) a'(2) a'(2)]
    have "a div 4 = a' div 4" "(a mod 4) * 16 + b div 16 = (a' mod 4) * 16 + b' div 16"
      "(b mod 16) * 4 = (b' mod 16) * 4"
      by (simp_all add: base64Char_eq)
    from sextet2_inj[OF a(2) a'(2) this] 3 show ?thesis by simp
  next
    case (4 a' b' c' rest)
    with "3.prems" have a': "a' < 256" "b' < 256" "c' < 256" by simp_all
    from 4 "3.prems"(3) sextet_bounds(6)[OF a'(3) a'(3) a'(3)] base64Char_pad[of "c' mod 64"]
    show ?thesis by auto
  qed
next
  case (4 a b c rest)
  then have a: "a < 256" "b < 256" "c < 256" and r: "\<forall>x\<in>set rest. x < 256" by simp_all
  show ?case
  proof (cases ys rule: btoaBytes.cases)
    case 1
    with 4 show ?thesis by simp
  next
    case (2 a')
    from 2 "4.prems"(3) sextet_bounds(5)[OF a(2) a(2) a(3)] base64Char_pad[of "(b mod 16) * 4 + c div 64"]
    show ?thesis by auto
  next
    case (3 a' b')
    from 3 "4.prems"(3) sextet_bounds(6)[OF a(3) a(3) a(3)] base64Char_pad[of "c mod 64"]
    show ?thesis by auto
  next
    case (4 a' b' c' rest')
    with "4.prems" have a': "a' < 256" "b' < 256" "c' < 256" and r': "\<forall>x\<in>set rest'. x < 256" by simp_all
    from 4 "4.prems"(3) sextet_bounds[OF a] sextet_bounds[OF a']
    have e: "a div 4 = a' div 4" "(a mod 4) * 16 + b div 16 = (a' mod 4) * 16 + b' div 16"
      "(b mod 16) * 4 + c div 64 = (b' mod 16) * 4 + c' div 64" "c mod 64 = c' mod 64"
      and t: "btoaBytes rest = btoaBytes rest'"
      by (simp_all add: base64Char_eq)
    from sextet3_inj[OF a(2,3) a'(2,3) e] "4.IH"[OF r r' t] 4 show ?thesis by simp
  qed
qed

lemma btoa_inj: "btoa s = btoa s' \<Longrightarrow> s = s'"
proof -
  assume "btoa s = btoa s'"
  then have "map of_char s = (map of_char s' :: nat list)"
    unfolding btoa_def by (intro btoaBytes_inj) auto
  then show ?thesis by (simp add: inj_of_char inj_map_eq_map)
qed

lemma split_at_first:
  assumes "c \<notin> set a" "c \<notin> set a'" "a @ c # r = a' @ c # r'"
  shows "a = a' \<and> r = r'"
  using assms
proof (induction a arbitrary: a')
  case Nil
  then show ?case by (cases a') auto
next
  case (Cons x xs)
  then show ?case by (cases a') auto
qed

lemma joined_inj:
  assumes "CHR ''-'' \<notin> set s" "CHR ''-'' \<notin> set g" "CHR ''-'' \<notin> set s'" "CHR ''-'' \<notin> set g'"
    and "t @ ''-'' @ s @ ''-'' @ g = t' @ ''-'' @ s' @ ''-'' @ g'"
  shows "t = t' \<and> s = s' \<and> g = g'"
proof -
  from assms(5) have "rev (t @ ''-'' @ s @ ''-'' @ g) = rev (t' @ ''-'' @ s' @ ''-'' @ g')" by simp
  then have e: "rev g @ CHR ''-'' # (rev s @ CHR ''-'' # rev t) = rev g' @ CHR ''-'' # (rev s' @ CHR ''-'' # rev t')"
    by simp
  from split_at_first[OF _ _ e] assms(2,4)
  have 1: "rev g = rev g'" "rev s @ CHR ''-'' # rev t = rev s' @ CHR ''-'' # rev t'" by simp_all
  from split_at_first[OF _ _ 1(2)] assms(1,3) have "rev s = rev s'" "rev t = rev t'" by simp_all
  with 1(1) show ?thesis by simp
qed

text \<open>
  Claim C4, as amended. The cache key is a function of the triple, and two triples have
  the same key exactly when their renderings \<^verbatim>\<open>text-source-target\<close> are the same string.
  So two distinct triples whose language codes contain no hyphen have distinct keys.
\<close>

theorem getCacheKey_injective_on_joined:
  "(getCacheKey t s g = getCacheKey t' s' g' \<longleftrightarrow>
      t @ ''-'' @ s @ ''-'' @ g = t' @ ''-'' @ s' @ ''-'' @ g') \<and>
   (CHR ''-'' \<notin> set s \<union> set g \<union> set s' \<union> set g' \<longrightarrow>
      (getCacheKey t s g = getCacheKey t' s' g' \<longleftrightarrow> t = t' \<and> s = s' \<and> g = g'))"
proof -
  have 1: "getCacheKey t s g = getCacheKey t' s' g' \<longleftrightarrow>
      t @ ''-'' @ s @ ''-'' @ g = t' @ ''-'' @ s' @ ''-'' @ g'" (is "?L \<longleftrightarrow> ?R")
  proof
    assume ?L
    then have "encodeURIComponent (t @ ''-'' @ s @ ''-'' @ g) =
        encodeURIComponent (t' @ ''-'' @ s' @ ''-'' @ g')"
      unfolding getCacheKey_def by (rule btoa_inj)
    then show ?R by (rule encodeURIComponent_inj)
  next
    assume ?R
    then show ?L by (simp only: getCacheKey_def)
  qed
  show ?thesis
  proof (intro conjI impI)
    show "?L \<longleftrightarrow> ?R" by (rule 1)
  next
    assume h: "CHR ''-'' \<notin> set s \<union> set g \<union> set s' \<union> set g'"
    show "?L \<longleftrightarrow> t = t' \<and> s = s' \<and> g = g'"
    proof
      assume ?L
      with 1 have ?R by simp
      with h show "t = t' \<and> s = s' \<and> g = g'"
        using joined_inj[of s g s' g' t t'] by simp
    next
      assume "t = t' \<and> s = s' \<and> g = g'"
      then show ?L by simp
    qed
  qed
qed

theorem getCacheKey_injective_on_joined_witness:
  "CHR ''-'' \<notin> set ''en'' \<union> set ''fr'' \<union> set ''en'' \<union> set ''de'' \<and>
   getCacheKey ''Hello'' ''en'' ''fr'' \<noteq> getCacheKey ''Hello'' ''en'' ''de''"
  using getCacheKey_injective_on_joined[of "''Hello''" "''en''" "''fr''" "''Hello''" "''en''" "''de''"]
  by simp

theorem getCacheKey_collision_counterexample:
  "(''Hello-zh'', ''TW'', ''en'') \<noteq> (''Hello'', ''zh-TW'', ''en'') \<and>
   getCacheKey ''Hello-zh'' ''TW'' ''en'' = getCacheKey ''Hello'' ''zh-TW'' ''en''"
  by (simp add: getCacheKey_def)

section \<open>What the patch generator builds\<close>

lemma toString_nonempty: "toString n \<noteq> []"
  by (subst toString.simps) simp

lemma digitChar_inj: "a < 10 \<Longrightarrow> b < 10 \<Longrightarrow> digitChar a = digitChar b \<longleftrightarrow> a = b"
  unfolding digitChar_def by (subst nth_eq_iff_index_eq) simp_all

lemma toString_inj: "toString n = toString m \<Longrightarrow> n = m"
proof (induction n arbitrary: m rule: toString.induct)
  case (1 n)
  show ?case
  proof (cases "n < 10")
    case True
    note n = this
    show ?thesis
    proof (cases "m < 10")
      case True
      with n "1.prems" show ?thesis
        by (simp add: toString.simps[of n] toString.simps[of m] digitChar_inj)
    next
      case False
      with n "1.prems" toString_nonempty[of "m div 10"] show ?thesis
        by (simp add: toString.simps[of n] toString.simps[of m])
    qed
  next
    case False
    note n = this
    show ?thesis
    proof (cases "m < 10")
      case True
      with n "1.prems" toString_nonempty[of "n div 10"] show ?thesis
        by (simp add: toString.simps[of n] toString.simps[of m])
    next
      case False
      with n "1.prems" have e: "toString (n div 10) = toString (m div 10)"
        "digitChar (n mod 10) = digitChar (m mod 10)"
        by (simp_all add: toString.simps[of n] toString.simps[of m])
      from "1.IH"[OF n e(1)] have "n div 10 = m div 10" .
      moreover from e(2) have "n mod 10 = m mod 10" by (simp add: digitChar_inj)
      ultimately show ?thesis by (metis div_mult_mod_eq)
    qed
  qed
qed

lemma toString_not_length: "toString n \<noteq> ''length''"
proof
  assume a: "toString n = ''length''"
  have "last (toString n) = digitChar (n mod 10)"
    by (subst toString.simps) (simp add: toString_nonempty)
  with a have "digitChar (n mod 10) = CHR ''h''" by simp
  moreover have "n mod 10 < 10" by simp
  then have "digitChar (n mod 10) \<in> set ''0123456789''"
    unfolding digitChar_def by (intro nth_mem) simp
  ultimately show False by auto
qed

lemma proto_is_member: "''__proto__'' \<in> set objectPrototypeNames"
  by (simp add: objectPrototypeNames_def)

lemma toString_plain: "toString n \<notin> set objectPrototypeNames"
proof
  assume a: "toString n \<in> set objectPrototypeNames"
  have "last (toString n) = digitChar (n mod 10)"
    by (subst toString.simps) (simp add: toString_nonempty)
  moreover have "n mod 10 < 10" by simp
  then have "digitChar (n mod 10) \<in> set ''0123456789''"
    unfolding digitChar_def by (intro nth_mem) simp
  ultimately have d: "last (toString n) \<in> set ''0123456789''" by simp
  from a have "last (toString n) \<in> set ''r_yfeg''"
    by (auto simp: objectPrototypeNames_def)
  with d show False by auto
qed

lemma itemsAvoid_iff: "itemsAvoid names xs \<longleftrightarrow> (\<forall>x\<in>set xs. keysAvoid names x)"
  by (induction xs) auto

lemma entriesAvoid_iff:
  "entriesAvoid names es \<longleftrightarrow> (\<forall>(k, v)\<in>set es. k \<notin> set names \<and> keysAvoid names v)"
  by (induction es) auto

lemma find_toString:
  "find (\<lambda>j. toString j = toString i) [0..<n] = (if i < n then Some i else None)"
proof (cases "i < n")
  case True
  have "find (\<lambda>j. toString j = toString i) [0..<n] = Some i"
    unfolding find_Some_iff using True toString_inj
    by (intro exI[of _ i]) auto
  with True show ?thesis by simp
next
  case False
  then have "find (\<lambda>j. toString j = toString i) [0..<n] = None"
    unfolding find_None_iff using toString_inj by auto
  with False show ?thesis by simp
qed

lemma getProp_index:
  "getProp (JArr xs) (toString i) = (if i < length xs then Some (xs ! i) else None)"
  by (simp add: find_toString toString_not_length)

lemma upt_shift: "[i..<i + Suc n] = i # [Suc i..<Suc i + n]"
  by (simp add: upt_rec)

lemma patchIndexKeys_nf:
  "patchIndexKeys orig ts i path p = patchKeys orig (zip (map toString [i..<i + length ts]) ts) path p"
proof (induction ts arbitrary: i p)
  case Nil
  show ?case by simp
next
  case (Cons t ts)
  have "[i..<i + length (t # ts)] = i # [Suc i..<Suc i + length ts]"
    using upt_shift[of i "length ts"] by simp
  then show ?case
    by (simp add: Cons.IH split: option.splits sum.splits)
qed

lemma patchArray_nf:
  "patchArray os ts i path p = patchIndexKeys (JArr os) ts i path p"
proof (induction ts arbitrary: i p)
  case Nil
  show ?case by simp
next
  case (Cons t ts)
  show ?case
    by (simp add: Cons.IH getProp_index del: getProp.simps split: sum.splits)
qed

lemma diffItems_nf:
  "diffItems orig ts i = diffEntries orig (zip (map toString [i..<i + length ts]) ts)"
proof (induction ts arbitrary: i)
  case Nil
  show ?case by simp
next
  case (Cons t ts)
  have "[i..<i + length (t # ts)] = i # [Suc i..<Suc i + length ts]"
    using upt_shift[of i "length ts"] by simp
  then show ?case
    by (simp add: Cons.IH)
qed

lemma cpf_nf:
  "isContainer orig \<Longrightarrow> isContainer tr \<Longrightarrow>
   createPatchForPath orig tr path p = patchKeys orig (entriesOf tr) path p"
  by (cases orig; cases tr) (simp_all add: patchArray_nf patchIndexKeys_nf)

lemma diffTree_nf:
  "isContainer orig \<Longrightarrow> isContainer tr \<Longrightarrow> diffTree orig tr = wrap (diffEntries orig (entriesOf tr))"
  by (cases orig; cases tr) (simp_all add: diffItems_nf)

lemma cpf_leaf:
  "\<not> (isContainer orig \<and> isContainer tr) \<Longrightarrow> \<not> (\<exists>a b. orig = JStr a \<and> tr = JStr b) \<Longrightarrow>
   createPatchForPath orig tr path p = Inr p \<and> diffTree orig tr = None"
  by (cases orig; cases tr) simp_all

lemma size_entriesOf: "(k, v) \<in> set (entriesOf t) \<Longrightarrow> size v < size t"
proof (cases t)
  case (JArr xs)
  assume "(k, v) \<in> set (entriesOf t)"
  with JArr have "v \<in> set xs" by (auto dest: set_zip_rightD)
  then have "size v \<le> size_list size xs" by (simp add: size_list_estimation')
  with JArr show ?thesis by simp
next
  case (JObj es)
  assume "(k, v) \<in> set (entriesOf t)"
  with JObj have "(k, v) \<in> set es" by simp
  then have "size_prod (\<lambda>_. 0) size (k, v) \<le> size_list (size_prod (\<lambda>_. 0) size) es"
    using size_list_estimation'[of "(k, v)" es "size_prod (\<lambda>_. 0) size (k, v)" "size_prod (\<lambda>_. 0) size"]
    by simp
  with JObj show ?thesis by simp
qed auto

lemma wf_items_iff: "wf_items xs \<longleftrightarrow> (\<forall>x\<in>set xs. wf_json x)"
  by (induction xs) auto

lemma wf_entries_iff: "wf_entries es \<longleftrightarrow> (\<forall>(k, v)\<in>set es. wf_json v)"
  by (induction es) auto

lemma distinct_index_keys: "distinct (map toString [0..<n])"
  by (simp add: distinct_map inj_on_def) (metis toString_inj)

lemma wf_entriesOf:
  assumes "wf_json t"
  shows "distinct (map fst (entriesOf t))" "(k, v) \<in> set (entriesOf t) \<Longrightarrow> wf_json v"
proof -
  show "distinct (map fst (entriesOf t))"
    using assms distinct_index_keys by (cases t) (simp_all add: map_fst_zip)
  show "(k, v) \<in> set (entriesOf t) \<Longrightarrow> wf_json v"
    using assms by (cases t) (auto simp: wf_items_iff wf_entries_iff dest: set_zip_rightD)
qed

lemma plain_entriesOf:
  assumes "keysAvoid objectPrototypeNames t" "(k, v) \<in> set (entriesOf t)"
  shows "k \<notin> set objectPrototypeNames" "keysAvoid objectPrototypeNames v"
proof -
  show "k \<notin> set objectPrototypeNames"
  proof (cases t)
    case (JArr xs)
    with assms(2) have "k \<in> set (map toString [0..<length xs])" by (auto dest: set_zip_leftD)
    then show ?thesis using toString_plain by auto
  next
    case (JObj es)
    with assms show ?thesis by (auto simp: entriesAvoid_iff)
  qed (use assms in auto)
  show "keysAvoid objectPrototypeNames v"
    using assms by (cases t) (auto simp: itemsAvoid_iff entriesAvoid_iff dest: set_zip_rightD)
qed

lemma vacant_nil: "path \<noteq> [] \<Longrightarrow> vacant path []"
  by (cases path; cases "tl path") auto

lemma vacant_cases:
  assumes "vacant (k # k' # ks) p"
  obtains "map_of p k = None" | s where "map_of p k = Some (JObj s)" "vacant (k' # ks) s"
  using assms by (auto split: option.splits json.splits)

lemma setValueAtPath_insertAt:
  "vacant path p \<Longrightarrow> set path \<inter> set objectPrototypeNames = {} \<Longrightarrow>
   setValueAtPath p path v = Inr (insertAt path (JStr v) p)"
proof (induction path arbitrary: p)
  case Nil
  then show ?case by simp
next
  case (Cons k rest)
  from Cons.prems(2) have pk: "k \<notin> set objectPrototypeNames"
    and pr: "set rest \<inter> set objectPrototypeNames = {}" by auto
  from pk proto_is_member have np: "k \<noteq> ''__proto__''" by auto
  show ?case
  proof (cases rest)
    case Nil
    with np show ?thesis by simp
  next
    case (Cons k' ks)
    from Cons.prems(1)[unfolded Cons] show ?thesis
    proof (cases rule: vacant_cases)
      case 1
      have "setValueAtPath [] rest v = Inr (insertAt rest (JStr v) [])"
        using pr by (intro Cons.IH) (simp_all add: vacant_nil Cons)
      with 1 Cons pk show ?thesis by (simp add: update_conv')
    next
      case (2 s)
      from Cons.IH[of s] 2 Cons pr pk show ?thesis by simp
    qed
  qed
qed

lemma vacant_snoc: "vacant path p \<Longrightarrow> vacant (path @ [key]) p"
proof (induction path arbitrary: p)
  case Nil
  then show ?case by simp
next
  case (Cons k rest)
  show ?case
  proof (cases rest)
    case Nil
    with Cons.prems show ?thesis by simp
  next
    case (Cons k' ks)
    from Cons.prems[unfolded Cons] show ?thesis
    proof (cases rule: vacant_cases)
      case 1
      with Cons show ?thesis by simp
    next
      case (2 s)
      from Cons.IH[of s] 2 Cons show ?thesis by simp
    qed
  qed
qed

lemma vacant_insertAt:
  "vacant path p \<Longrightarrow> key \<notin> fst ` set ds \<Longrightarrow> vacant (path @ [key]) (insertAt path (JObj ds) p)"
proof (induction path arbitrary: p)
  case Nil
  then show ?case by simp
next
  case (Cons k rest)
  show ?case
  proof (cases rest)
    case Nil
    with Cons.prems show ?thesis by (simp add: update_conv' map_of_eq_None_iff)
  next
    case (Cons k' ks)
    from Cons.prems(1)[unfolded Cons] show ?thesis
    proof (cases rule: vacant_cases)
      case 1
      have "vacant (rest @ [key]) (insertAt rest (JObj ds) [])"
        using Cons.prems(2) by (intro Cons.IH) (simp_all add: vacant_nil Cons)
      with 1 Cons show ?thesis by (simp add: update_conv')
    next
      case (2 s)
      from Cons.IH[of s] 2 Cons Cons.prems(2) show ?thesis by (simp add: update_conv')
    qed
  qed
qed

lemma insertAt_snoc_first:
  "vacant path p \<Longrightarrow> insertAt (path @ [key]) d p = insertAt path (JObj [(key, d)]) p"
proof (induction path arbitrary: p)
  case Nil
  then show ?case by simp
next
  case (Cons k rest)
  show ?case
  proof (cases rest)
    case Nil
    with Cons.prems show ?thesis by simp
  next
    case (Cons k' ks)
    from Cons.prems(1)[unfolded Cons] show ?thesis
    proof (cases rule: vacant_cases)
      case 1
      have "insertAt (rest @ [key]) d [] = insertAt rest (JObj [(key, d)]) []"
        by (intro Cons.IH) (simp_all add: vacant_nil Cons)
      with 1 Cons show ?thesis by simp
    next
      case (2 s)
      from Cons.IH[of s] 2 Cons show ?thesis by simp
    qed
  qed
qed

lemma insertAt_snoc_next:
  "vacant path p \<Longrightarrow> key \<notin> fst ` set ds \<Longrightarrow>
   insertAt (path @ [key]) d (insertAt path (JObj ds) p) = insertAt path (JObj (ds @ [(key, d)])) p"
proof (induction path arbitrary: p)
  case Nil
  then show ?case by simp
next
  case (Cons k rest)
  show ?case
  proof (cases rest)
    case Nil
    with Cons.prems show ?thesis by (simp add: update_conv' update_fresh)
  next
    case (Cons k' ks)
    from Cons.prems(1)[unfolded Cons] show ?thesis
    proof (cases rule: vacant_cases)
      case 1
      have "insertAt (rest @ [key]) d (insertAt rest (JObj ds) []) =
          insertAt rest (JObj (ds @ [(key, d)])) []"
        using Cons.prems(2) by (intro Cons.IH) (simp_all add: vacant_nil Cons)
      with 1 Cons show ?thesis by (simp add: update_conv')
    next
      case (2 s)
      from Cons.IH[of s] 2 Cons Cons.prems(2) show ?thesis by (simp add: update_conv')
    qed
  qed
qed

lemma patchKeys_step:
  assumes outer: "\<And>k v ov q. (k, v) \<in> set es \<Longrightarrow> vacant (path @ [k]) q \<Longrightarrow>
      createPatchForPath ov v (path @ [k]) q =
        Inr (case diffTree ov v of None \<Rightarrow> q | Some d \<Rightarrow> insertAt (path @ [k]) d q)"
    and vac: "vacant path p"
    and dist: "distinct (map fst es)"
    and disj: "fst ` set ds \<inter> fst ` set es = {}"
  shows "patchKeys orig es path (if ds = [] then p else insertAt path (JObj ds) p) =
     Inr (if ds @ diffEntries orig es = [] then p else insertAt path (JObj (ds @ diffEntries orig es)) p)"
  using outer dist disj
proof (induction es arbitrary: ds)
  case Nil
  show ?case by simp
next
  case (Cons e es)
  obtain key v where e: "e = (key, v)" by (cases e)
  let ?X = "\<lambda>ds. if ds = [] then p else insertAt path (JObj ds) p"
  from Cons.prems(2,3) e have fresh: "key \<notin> fst ` set ds" and dist': "distinct (map fst es)"
    and notin: "key \<notin> fst ` set es" by auto
  have vX: "vacant (path @ [key]) (?X ds)"
    using vac fresh by (simp add: vacant_snoc vacant_insertAt)
  have rest: "patchKeys orig es path (?X ds') = Inr (?X (ds' @ diffEntries orig es))"
    if "fst ` set ds' \<subseteq> insert key (fst ` set ds)" for ds'
  proof (rule Cons.IH)
    show "createPatchForPath ov v (path @ [k]) q =
        Inr (case diffTree ov v of None \<Rightarrow> q | Some d \<Rightarrow> insertAt (path @ [k]) d q)"
      if "(k, v) \<in> set es" "vacant (path @ [k]) q" for k v ov q
      using that by (intro Cons.prems(1)) simp_all
    show "distinct (map fst es)" by (rule dist')
    from Cons.prems(3) have "fst ` set ds \<inter> fst ` set es = {}" by auto
    with that notin show "fst ` set ds' \<inter> fst ` set es = {}" by blast
  qed
  have r0: "patchKeys orig es path (?X ds) = Inr (?X (ds @ diffEntries orig es))"
    by (rule rest) auto
  have r1: "patchKeys orig es path (?X (ds @ [(key, d)])) = Inr (?X ((ds @ [(key, d)]) @ diffEntries orig es))" for d
    by (rule rest) auto
  show ?case
  proof (cases "getProp orig key")
    case None
    with e r0 show ?thesis by simp
  next
    case (Some ov)
    have c: "createPatchForPath ov v (path @ [key]) (?X ds) =
        Inr (case diffTree ov v of None \<Rightarrow> ?X ds | Some d \<Rightarrow> insertAt (path @ [key]) d (?X ds))"
      using vX e by (intro Cons.prems(1)) simp_all
    show ?thesis
    proof (cases "diffTree ov v")
      case None
      with Some e c r0 show ?thesis by simp
    next
      case (Some d)
      have "insertAt (path @ [key]) d (?X ds) = ?X (ds @ [(key, d)])"
        using vac fresh by (simp add: insertAt_snoc_first insertAt_snoc_next)
      with Some \<open>getProp orig key = Some ov\<close> e c r1[of d] show ?thesis
        by simp
    qed
  qed
qed

lemma createPatchForPath_diffTree:
  "wf_json tr \<Longrightarrow> keysAvoid objectPrototypeNames tr \<Longrightarrow> vacant path p \<Longrightarrow>
   set path \<inter> set objectPrototypeNames = {} \<Longrightarrow>
   createPatchForPath orig tr path p =
     Inr (case diffTree orig tr of None \<Rightarrow> p | Some d \<Rightarrow> insertAt path d p)"
proof (induction tr arbitrary: orig path p rule: measure_induct_rule[of size])
  case (less tr)
  consider (str) a b where "orig = JStr a" "tr = JStr b"
    | (cont) "isContainer orig" "isContainer tr"
    | (leaf) "\<not> (isContainer orig \<and> isContainer tr)" "\<not> (\<exists>a b. orig = JStr a \<and> tr = JStr b)"
    by blast
  then show ?case
  proof cases
    case str
    with less.prems show ?thesis by (simp add: setValueAtPath_insertAt)
  next
    case cont
    have outer: "createPatchForPath ov v (path @ [k]) q =
          Inr (case diffTree ov v of None \<Rightarrow> q | Some d \<Rightarrow> insertAt (path @ [k]) d q)"
      if "(k, v) \<in> set (entriesOf tr)" "vacant (path @ [k]) q" for k v ov q
      using that size_entriesOf[OF that(1)] wf_entriesOf(2)[OF less.prems(1) that(1)]
        plain_entriesOf[OF less.prems(2) that(1)] less.prems(4)
      by (intro less.IH) simp_all
    have "patchKeys orig (entriesOf tr) path p =
       Inr (if diffEntries orig (entriesOf tr) = [] then p
            else insertAt path (JObj (diffEntries orig (entriesOf tr))) p)"
      using patchKeys_step[of "entriesOf tr" path p "[]" orig, OF outer less.prems(3)
          wf_entriesOf(1)[OF less.prems(1)]]
      by simp
    with cont show ?thesis
      by (simp add: cpf_nf diffTree_nf wrap_def)
  next
    case leaf
    with cpf_leaf[OF leaf, of path p] show ?thesis by simp
  qed
qed

lemma patchKeys_root:
  assumes wf: "\<And>k v. (k, v) \<in> set es \<Longrightarrow>
      wf_json v \<and> k \<notin> set objectPrototypeNames \<and> keysAvoid objectPrototypeNames v"
    and dist: "distinct (map fst es)"
    and disj: "fst ` set ds \<inter> fst ` set es = {}"
  shows "patchKeys orig es [] ds = Inr (ds @ diffEntries orig es)"
  using wf dist disj
proof (induction es arbitrary: ds)
  case Nil
  show ?case by simp
next
  case (Cons e es)
  obtain key v where e: "e = (key, v)" by (cases e)
  from Cons.prems(2,3) e have fresh: "key \<notin> fst ` set ds" and dist': "distinct (map fst es)"
    and notin: "key \<notin> fst ` set es" by auto
  have wfv: "wf_json v" and pk: "key \<notin> set objectPrototypeNames"
    and pv: "keysAvoid objectPrototypeNames v" using Cons.prems(1)[of key v] e by simp_all
  have rest: "patchKeys orig es [] ds' = Inr (ds' @ diffEntries orig es)"
    if "fst ` set ds' \<subseteq> insert key (fst ` set ds)" for ds'
  proof (rule Cons.IH)
    show "wf_json v \<and> k \<notin> set objectPrototypeNames \<and> keysAvoid objectPrototypeNames v"
      if "(k, v) \<in> set es" for k v using that by (intro Cons.prems(1)[of k v]) simp
    show "distinct (map fst es)" by (rule dist')
    from Cons.prems(3) have "fst ` set ds \<inter> fst ` set es = {}" by auto
    with that notin show "fst ` set ds' \<inter> fst ` set es = {}" by blast
  qed
  have vac: "vacant [key] ds" using fresh by (simp add: map_of_eq_None_iff)
  have r0: "patchKeys orig es [] ds = Inr (ds @ diffEntries orig es)"
    by (rule rest) auto
  have r1: "patchKeys orig es [] (ds @ [(key, d)]) = Inr ((ds @ [(key, d)]) @ diffEntries orig es)" for d
    by (rule rest) auto
  show ?case
  proof (cases "getProp orig key")
    case None
    with e r0 show ?thesis by simp
  next
    case (Some ov)
    have "set [key] \<inter> set objectPrototypeNames = {}" using pk by simp
    from createPatchForPath_diffTree[OF wfv pv vac this, of ov]
    have c: "createPatchForPath ov v [key] ds =
        Inr (case diffTree ov v of None \<Rightarrow> ds | Some d \<Rightarrow> ds @ [(key, d)])"
      using fresh by (simp add: update_fresh split: option.splits)
    show ?thesis
    proof (cases "diffTree ov v")
      case None
      with Some e c r0 show ?thesis by simp
    next
      case (Some d)
      with \<open>getProp orig key = Some ov\<close> e c r1[of d] show ?thesis by simp
    qed
  qed
qed

lemma createPatch_patchOf:
  assumes "wf_json translated" and "keysAvoid objectPrototypeNames translated"
  shows "createPatch original translated = Inr (JObj (patchOf original translated))"
proof -
  consider (str) a b where "original = JStr a" "translated = JStr b"
    | (cont) "isContainer original" "isContainer translated"
    | (leaf) "\<not> (isContainer original \<and> isContainer translated)"
        "\<not> (\<exists>a b. original = JStr a \<and> translated = JStr b)"
    by blast
  then show ?thesis
  proof cases
    case str
    then show ?thesis by (simp add: createPatch_def patchOf_def)
  next
    case cont
    have "patchKeys original (entriesOf translated) [] [] =
        Inr ([] @ diffEntries original (entriesOf translated))"
      using patchKeys_root[of "entriesOf translated" "[]" original] wf_entriesOf[OF assms(1)]
        plain_entriesOf[OF assms(2)] by simp
    with cont show ?thesis
      by (cases original; cases translated)
        (simp_all add: createPatch_def patchOf_def cpf_nf diffTree_nf wrap_def del: createPatchForPath.simps diffTree.simps)
  next
    case leaf
    with cpf_leaf[OF leaf, of "[]" "[]"] show ?thesis
      by (cases original; cases translated) (simp_all add: createPatch_def patchOf_def)
  qed
qed

lemma sameItems_iff:
  "sameItems xs ys \<longleftrightarrow> length xs = length ys \<and> (\<forall>j<length xs. sameShape (xs ! j) (ys ! j))"
proof (induction xs arbitrary: ys)
  case Nil
  show ?case by (cases ys) auto
next
  case (Cons x xs)
  show ?case
  proof (cases ys)
    case Nil
    then show ?thesis by simp
  next
    case (Cons y ys')
    with Cons.IH[of ys'] show ?thesis
      by (auto simp: nth_Cons split: nat.splits)
  qed
qed

lemma sameEntries_iff:
  "sameEntries es fs \<longleftrightarrow> map fst es = map fst fs \<and> (\<forall>j<length es. sameShape (snd (es ! j)) (snd (fs ! j)))"
proof (induction es arbitrary: fs)
  case Nil
  show ?case by (cases fs) auto
next
  case (Cons e es)
  obtain k x where e: "e = (k, x)" by (cases e)
  show ?case
  proof (cases fs)
    case Nil
    then show ?thesis by (simp add: e)
  next
    case (Cons f fs')
    obtain l y where f: "f = (l, y)" by (cases f)
    from Cons.IH[of fs'] Cons e f show ?thesis
      by (auto simp: nth_Cons split: nat.splits)
  qed
qed

lemma overrideItems_nth:
  "length (overrideItems xs i ps) = length xs"
  "j < length xs \<Longrightarrow> overrideItems xs i ps ! j =
     (case map_of ps (toString (i + j)) of None \<Rightarrow> xs ! j | Some q \<Rightarrow> override (xs ! j) q)"
  by (induction xs arbitrary: i j) (auto simp: nth_Cons split: nat.splits option.splits)

lemma overrideEntries_nth:
  "length (overrideEntries es ps) = length es"
  "j < length es \<Longrightarrow> overrideEntries es ps ! j =
     (fst (es ! j), case map_of ps (fst (es ! j)) of None \<Rightarrow> snd (es ! j) | Some q \<Rightarrow> override (snd (es ! j)) q)"
  by (induction es arbitrary: j) (auto simp: nth_Cons split: nat.splits option.splits)

lemma diffEntries_keys: "k \<in> fst ` set (diffEntries orig fs) \<Longrightarrow> k \<in> fst ` set fs"
proof (induction fs)
  case Nil
  then show ?case by simp
next
  case (Cons f fs)
  obtain key v where f: "f = (key, v)" by (cases f)
  from Cons.prems f have "k = key \<or> k \<in> fst ` set (diffEntries orig fs)"
    by (auto split: option.splits)
  with Cons.IH f show ?case by auto
qed

lemma map_of_diffEntries:
  "distinct (map fst fs) \<Longrightarrow>
   map_of (diffEntries orig fs) k =
     (case map_of fs k of None \<Rightarrow> None
      | Some v \<Rightarrow> (case getProp orig k of None \<Rightarrow> None | Some ov \<Rightarrow> diffTree ov v))"
proof (induction fs)
  case Nil
  show ?case by simp
next
  case (Cons f fs)
  obtain key v where f: "f = (key, v)" by (cases f)
  from Cons.prems f have notin: "key \<notin> fst ` set fs" and d: "distinct (map fst fs)" by auto
  from notin diffEntries_keys[of key orig fs] have n: "map_of (diffEntries orig fs) key = None"
    by (auto simp: map_of_eq_None_iff)
  from notin have n2: "map_of fs key = None" by (simp add: map_of_eq_None_iff)
  show ?case
  proof (cases "k = key")
    case True
    with f n show ?thesis by (auto simp: map_add_def split: option.splits)
  next
    case False
    with f Cons.IH[OF d] show ?thesis by (auto simp: map_add_def split: option.splits)
  qed
qed

lemma size_elem: "x \<in> set xs \<Longrightarrow> size x < size (JArr xs)"
  using size_list_estimation'[of x xs "size x" size] by simp

lemma map_of_nth: "distinct (map fst es) \<Longrightarrow> j < length es \<Longrightarrow> map_of es (fst (es ! j)) = Some (snd (es ! j))"
  by (metis map_of_is_SomeI nth_mem prod.collapse)

lemma override_diffTree:
  "wf_json orig \<Longrightarrow> sameShape orig tr \<Longrightarrow>
   (case diffTree orig tr of None \<Rightarrow> orig = tr | Some d \<Rightarrow> override orig d = tr)"
proof (induction orig arbitrary: tr rule: measure_induct_rule[of size])
  case (less orig)
  show ?case
  proof (cases orig)
    case JNull
    with less.prems show ?thesis by (cases tr) auto
  next
    case (JBool b)
    with less.prems show ?thesis by (cases tr) auto
  next
    case (JNum n)
    with less.prems show ?thesis by (cases tr) auto
  next
    case (JStr a)
    with less.prems show ?thesis by (cases tr) auto
  next
    case (JArr xs)
    with less.prems obtain ys where tr: "tr = JArr ys" and same: "sameItems xs ys"
      by (cases tr) auto
    from same have len: "length xs = length ys"
      and shape: "\<And>j. j < length xs \<Longrightarrow> sameShape (xs ! j) (ys ! j)"
      by (simp_all add: sameItems_iff)
    define ds where "ds = diffItems (JArr xs) ys 0"
    have ds: "ds = diffEntries (JArr xs) (zip (map toString [0..<length ys]) ys)"
      by (simp add: ds_def diffItems_nf)
    have look: "map_of ds (toString j) = diffTree (xs ! j) (ys ! j)" if j: "j < length xs" for j
    proof -
      have "map_of (zip (map toString [0..<length ys]) ys) (map toString [0..<length ys] ! j) = Some (ys ! j)"
        using j len distinct_index_keys[of "length ys"] by (intro map_of_zip_nth) simp_all
      then have "map_of (zip (map toString [0..<length ys]) ys) (toString j) = Some (ys ! j)"
        using j len by simp
      then show ?thesis
        unfolding ds using j distinct_index_keys[of "length ys"]
        by (simp add: map_of_diffEntries map_fst_zip getProp_index del: getProp.simps)
    qed
    have elem: "(case diffTree (xs ! j) (ys ! j) of None \<Rightarrow> xs ! j = ys ! j
        | Some d \<Rightarrow> override (xs ! j) d = ys ! j)" if j: "j < length xs" for j
    proof (rule less.IH)
      from j have m: "xs ! j \<in> set xs" by simp
      from size_elem[OF m] JArr show "size (xs ! j) < size orig" by simp
      from less.prems(1) JArr m show "wf_json (xs ! j)" by (simp add: wf_items_iff)
      from shape[OF j] show "sameShape (xs ! j) (ys ! j)" .
    qed
    have K: "(case map_of ds (toString j) of None \<Rightarrow> xs ! j | Some q \<Rightarrow> override (xs ! j) q) = ys ! j"
      if j: "j < length xs" for j
      using elem[OF j] look[OF j] by (auto split: option.splits)
    have dt: "diffTree orig tr = wrap ds" using JArr tr by (simp add: ds_def)
    show ?thesis
    proof (cases "ds = []")
      case True
      have "xs = ys"
        using len K True by (intro nth_equalityI) auto
      then have "orig = tr" using JArr tr by simp
      with True show ?thesis unfolding dt by (simp add: wrap_def)
    next
      case False
      have "overrideItems xs 0 ds = ys"
        using len K by (intro nth_equalityI) (simp_all add: overrideItems_nth)
      then have "override orig (JObj ds) = tr" using JArr tr by simp
      with False show ?thesis unfolding dt by (simp add: wrap_def)
    qed
  next
    case (JObj es)
    with less.prems obtain fs where tr: "tr = JObj fs" and same: "sameEntries es fs"
      by (cases tr) auto
    from same have keys: "map fst es = map fst fs"
      and shape: "\<And>j. j < length es \<Longrightarrow> sameShape (snd (es ! j)) (snd (fs ! j))"
      by (simp_all add: sameEntries_iff)
    from keys have len: "length es = length fs" by (metis length_map)
    from less.prems(1) JObj have dist: "distinct (map fst es)" and wfe: "wf_entries es" by simp_all
    from dist keys have distf: "distinct (map fst fs)" by simp
    have key: "fst (fs ! j) = fst (es ! j)" if "j < length es" for j
      using that keys len by (metis nth_map)
    define ds where "ds = diffEntries (JObj es) fs"
    have look: "map_of ds (fst (es ! j)) = diffTree (snd (es ! j)) (snd (fs ! j))" if j: "j < length es" for j
      using map_of_nth[OF dist j] map_of_nth[OF distf, of j] j len key[OF j]
      by (simp add: ds_def map_of_diffEntries[OF distf])
    have elem: "(case diffTree (snd (es ! j)) (snd (fs ! j)) of None \<Rightarrow> snd (es ! j) = snd (fs ! j)
        | Some d \<Rightarrow> override (snd (es ! j)) d = snd (fs ! j))" if j: "j < length es" for j
    proof (rule less.IH)
      from j have m: "(fst (es ! j), snd (es ! j)) \<in> set (entriesOf (JObj es))" by simp
      from size_entriesOf[OF m] JObj show "size (snd (es ! j)) < size orig" by simp
      from wfe m show "wf_json (snd (es ! j))" by (auto simp: wf_entries_iff)
      from shape[OF j] show "sameShape (snd (es ! j)) (snd (fs ! j))" .
    qed
    have K: "(fst (es ! j), case map_of ds (fst (es ! j)) of None \<Rightarrow> snd (es ! j)
        | Some q \<Rightarrow> override (snd (es ! j)) q) = fs ! j"
      if j: "j < length es" for j
      using elem[OF j] look[OF j] key[OF j] by (cases "fs ! j") (auto split: option.splits)
    have dt: "diffTree orig tr = wrap ds" using JObj tr by (simp add: ds_def)
    show ?thesis
    proof (cases "ds = []")
      case True
      have "es = fs"
      proof (intro nth_equalityI len)
        fix j assume j: "j < length es"
        from K[OF j] True show "es ! j = fs ! j" by simp
      qed
      then have "orig = tr" using JObj tr by simp
      with True show ?thesis unfolding dt by (simp add: wrap_def)
    next
      case False
      have "overrideEntries es ds = fs"
        using len K by (intro nth_equalityI) (simp_all add: overrideEntries_nth)
      then have "override orig (JObj ds) = tr" using JObj tr by simp
      with False show ?thesis unfolding dt by (simp add: wrap_def)
    qed
  qed
qed

lemma sameShape_wf:
  "sameShape a b \<Longrightarrow> wf_json a \<Longrightarrow> wf_json b"
  "sameItems xs ys \<Longrightarrow> wf_items xs \<Longrightarrow> wf_items ys"
  "sameEntries es fs \<Longrightarrow> wf_entries es \<Longrightarrow> wf_entries fs \<and> map fst es = map fst fs"
  by (induction a b and xs ys and es fs rule: sameShape_sameItems_sameEntries.induct) auto

lemma sameShape_keysAvoid:
  "sameShape a b \<Longrightarrow> keysAvoid names a \<Longrightarrow> keysAvoid names b"
  "sameItems xs ys \<Longrightarrow> itemsAvoid names xs \<Longrightarrow> itemsAvoid names ys"
  "sameEntries es fs \<Longrightarrow> entriesAvoid names es \<Longrightarrow> entriesAvoid names fs"
  by (induction a b and xs ys and es fs rule: sameShape_sameItems_sameEntries.induct) auto

lemma overrideItems_empty: "overrideItems xs i [] = xs"
  by (induction xs arbitrary: i) auto

lemma overrideEntries_empty: "overrideEntries es [] = es"
  by (induction es) auto

lemma override_empty: "override v (JObj []) = v"
  by (cases v) (simp_all add: overrideItems_empty overrideEntries_empty)

lemma diffTree_obj:
  "diffTree orig tr = Some d \<Longrightarrow> (\<exists>a b. orig = JStr a \<and> tr = JStr b) \<or> (\<exists>ds. d = JObj ds)"
  by (cases orig; cases tr) (auto simp: wrap_def split: if_splits)

text \<open>
  Keys that are names of members of \<^verbatim>\<open>Object.prototype\<close>. Below such a key of the two
  trees the walk of \<^verbatim>\<open>setValueAtPath\<close> enters a built-in object; a string under the key
  \<^verbatim>\<open>__proto__\<close> is not stored at all; under another such name it is stored as an own
  property.
\<close>

lemma createPatch_member_names:
  "createPatch (JObj [(''constructor'', JObj [(''x'', JStr ''Hello'')])])
     (JObj [(''constructor'', JObj [(''x'', JStr ''Bonjour'')])]) = Inl EntersBuiltin"
  "createPatch (JObj [(''__proto__'', JObj [(''a'', JStr ''Hello'')])])
     (JObj [(''__proto__'', JObj [(''a'', JStr ''Bonjour'')])]) = Inl EntersBuiltin"
  "createPatch (JObj [(''__proto__'', JStr ''Hello'')]) (JObj [(''__proto__'', JStr ''Bonjour'')]) =
     Inr (JObj [])"
  "createPatch (JObj [(''toString'', JStr ''Hello'')]) (JObj [(''toString'', JStr ''Bonjour'')]) =
     Inr (JObj [(''toString'', JStr ''Bonjour'')])"
  by (simp_all add: createPatch_def objectPrototypeNames_def)

text \<open>
  Claim C3, as amended. For every pair of trees such that the original has pairwise
  distinct keys in each object, none of them the name of a member of \<^verbatim>\<open>Object.prototype\<close>,
  the translated tree has the structure of the original (the same nesting, the same keys
  in the same order, arrays of the same lengths, the same leaves wherever the leaf is not
  a string) and the two are not two different strings themselves, \<open>createPatch\<close> returns
  a patch, and applying it as overrides onto the original gives the translated tree.
\<close>

theorem createPatch_override:
  assumes "wf_json original" and "keysAvoid objectPrototypeNames original"
    and "sameShape original translated"
    and "\<not> (\<exists>a b. original = JStr a \<and> translated = JStr b \<and> a \<noteq> b)"
  shows "\<exists>patch. createPatch original translated = Inr patch \<and> override original patch = translated"
proof -
  from sameShape_wf(1)[OF assms(3,1)] have wft: "wf_json translated" .
  from sameShape_keysAvoid(1)[OF assms(3,2)] have pt: "keysAvoid objectPrototypeNames translated" .
  have cp: "createPatch original translated = Inr (JObj (patchOf original translated))"
    by (rule createPatch_patchOf[OF wft pt])
  have "override original (JObj (patchOf original translated)) = translated"
  proof (cases "\<exists>a b. original = JStr a \<and> translated = JStr b")
    case True
    with assms(4) show ?thesis by (auto simp: patchOf_def)
  next
    case False
    then have po: "patchOf original translated =
        (case diffTree original translated of Some (JObj ds) \<Rightarrow> ds | _ \<Rightarrow> [])"
      by (cases original; cases translated) (simp_all add: patchOf_def)
    show ?thesis
    proof (cases "diffTree original translated")
      case None
      with override_diffTree[OF assms(1,3)] po show ?thesis by (simp add: override_empty)
    next
      case (Some d)
      with diffTree_obj[OF Some] False obtain ds where d: "d = JObj ds" by blast
      with Some override_diffTree[OF assms(1,3)] po show ?thesis by simp
    qed
  qed
  with cp show ?thesis by blast
qed

theorem createPatch_override_witness:
  "wf_json (JObj [(''a'', JStr ''Hello''), (''b'', JArr [JStr ''Hello'', JStr ''World'']), (''n'', JNum 1)]) \<and>
   keysAvoid objectPrototypeNames
     (JObj [(''a'', JStr ''Hello''), (''b'', JArr [JStr ''Hello'', JStr ''World'']), (''n'', JNum 1)]) \<and>
   sameShape (JObj [(''a'', JStr ''Hello''), (''b'', JArr [JStr ''Hello'', JStr ''World'']), (''n'', JNum 1)])
     (JObj [(''a'', JStr ''Bonjour''), (''b'', JArr [JStr ''Bonjour'', JStr ''World'']), (''n'', JNum 1)]) \<and>
   createPatch (JObj [(''a'', JStr ''Hello''), (''b'', JArr [JStr ''Hello'', JStr ''World'']), (''n'', JNum 1)])
     (JObj [(''a'', JStr ''Bonjour''), (''b'', JArr [JStr ''Bonjour'', JStr ''World'']), (''n'', JNum 1)]) =
     Inr (JObj [(''a'', JStr ''Bonjour''), (''b'', JObj [(''0'', JStr ''Bonjour'')])]) \<and>
   override (JObj [(''a'', JStr ''Hello''), (''b'', JArr [JStr ''Hello'', JStr ''World'']), (''n'', JNum 1)])
     (JObj [(''a'', JStr ''Bonjour''), (''b'', JObj [(''0'', JStr ''Bonjour'')])]) =
     JObj [(''a'', JStr ''Bonjour''), (''b'', JArr [JStr ''Bonjour'', JStr ''World'']), (''n'', JNum 1)]"
proof -
  let ?O = "JObj [(''a'', JStr ''Hello''), (''b'', JArr [JStr ''Hello'', JStr ''World'']), (''n'', JNum 1)]"
  let ?T = "JObj [(''a'', JStr ''Bonjour''), (''b'', JArr [JStr ''Bonjour'', JStr ''World'']), (''n'', JNum 1)]"
  have wf: "wf_json ?O" by simp
  have pl: "keysAvoid objectPrototypeNames ?O" by (simp add: objectPrototypeNames_def)
  have sh: "sameShape ?O ?T" by simp
  have ns: "\<not> (\<exists>a b. ?O = JStr a \<and> ?T = JStr b \<and> a \<noteq> b)" by simp
  have t0: "toString 0 = ''0''" "toString (Suc 0) = ''1''"
    by (simp_all add: toString.simps digitChar_def)
  have cp: "createPatch ?O ?T = Inr (JObj [(''a'', JStr ''Bonjour''), (''b'', JObj [(''0'', JStr ''Bonjour'')])])"
    by (simp add: createPatch_def t0 objectPrototypeNames_def)
  from createPatch_override[OF wf pl sh ns] cp wf pl sh show ?thesis by simp
qed

theorem createPatch_override_counterexample:
  "createPatch (JObj [(''a'', JStr ''Hello''), (''b'', JStr ''World'')]) (JObj [(''a'', JStr ''Bonjour'')]) =
     Inr (JObj [(''a'', JStr ''Bonjour'')]) \<and>
   override (JObj [(''a'', JStr ''Hello''), (''b'', JStr ''World'')]) (JObj [(''a'', JStr ''Bonjour'')]) =
     JObj [(''a'', JStr ''Bonjour''), (''b'', JStr ''World'')] \<and>
   JObj [(''a'', JStr ''Bonjour''), (''b'', JStr ''World'')] \<noteq> JObj [(''a'', JStr ''Bonjour'')] \<and>
   createPatch (JObj [(''n'', JNum 1)]) (JObj [(''n'', JNum 2)]) = Inr (JObj []) \<and>
   override (JObj [(''n'', JNum 1)]) (JObj []) = JObj [(''n'', JNum 1)] \<and>
   JObj [(''n'', JNum 1)] \<noteq> JObj [(''n'', JNum 2)]"
  by (simp add: createPatch_def)

text \<open>
  Claim C10 at a pair of root strings. The path of the pair is empty, the loop of
  \<^verbatim>\<open>setValueAtPath\<close> does not run and the leaf is stored under \<^verbatim>\<open>path[-1]\<close>: the patch holds
  the translated string under the key \<^verbatim>\<open>undefined\<close>, a path at which neither tree holds a
  value.
\<close>

theorem createPatch_root_strings:
  "createPatch (JStr ''Hello'') (JStr ''Bonjour'') = Inr (JObj [(''undefined'', JStr ''Bonjour'')]) \<and>
   valueAt [''undefined''] (JStr ''Hello'') = None \<and>
   valueAt [''undefined''] (JStr ''Bonjour'') = None"
  by (simp add: createPatch_def)

section \<open>Properties of the translation service\<close>

subsection \<open>One job: attempts, retries and back-off\<close>

lemma processJob_hit:
  assumes "cacheHit (world n)"
  shows "processJob world n maxR job =
    (job\<lparr>status := JCompleted, translatedText := cached (world n)\<rparr>,
     [\<lparr>level = LInfo, message = CacheHit (take 50 (originalText job))\<rparr>],
     [CacheGet (originalText job) (sourceLanguage job) (targetLanguage job)],
     Suc n, pauseArrives (world n))"
  using assms
  by (subst processJob.simps) (auto simp: cacheHit_def Let_def split: option.splits)

lemma processJob_ok:
  assumes "\<not> cacheHit (world n)" "response (world n) = Inr text"
  shows "processJob world n maxR job =
    (job\<lparr>status := JCompleted, translatedText := Some text\<rparr>,
     (if sourceLanguage job = ''auto''
      then [\<lparr>level = LInfo, message = Detected (detected (world n)) (take 30 (originalText job))\<rparr>]
      else []) @ [\<lparr>level = LInfo, message = Translated (originalText job) text\<rparr>],
     CacheGet (originalText job) (sourceLanguage job) (targetLanguage job) # afterLookup job (world n),
     Suc n, pauseArrives (world n))"
  using assms
  by (subst processJob.simps) (auto simp: cacheHit_def afterLookup_def Let_def split: option.splits)

lemma processJob_giveup:
  assumes "\<not> cacheHit (world n)" "response (world n) = Inl msg" "maxR \<le> retryCount job"
  shows "processJob world n maxR job =
    (job\<lparr>status := JError, retryCount := Suc (retryCount job), error := Some msg\<rparr>,
     (if sourceLanguage job = ''auto''
      then [\<lparr>level = LInfo, message = Detected (detected (world n)) (take 30 (originalText job))\<rparr>]
      else []) @ [\<lparr>level = LError, message = FailedToTranslate (originalText job) msg\<rparr>],
     CacheGet (originalText job) (sourceLanguage job) (targetLanguage job) # afterLookup job (world n),
     Suc n, pauseArrives (world n))"
  using assms
  by (subst processJob.simps) (auto simp: cacheHit_def afterLookup_def Let_def split: option.splits)

lemma processJob_again:
  assumes "\<not> cacheHit (world n)" "response (world n) = Inl msg" "retryCount job < maxR"
  shows "processJob world n maxR job =
    (case processJob world (Suc n) maxR (job\<lparr>status := JTranslating, retryCount := Suc (retryCount job)\<rparr>) of
       (job', said', calls', n', p') \<Rightarrow>
         (job',
          (if sourceLanguage job = ''auto''
           then [\<lparr>level = LInfo, message = Detected (detected (world n)) (take 30 (originalText job))\<rparr>]
           else []) @ [\<lparr>level = LWarning, message = Retry (Suc (retryCount job)) maxR (originalText job)\<rparr>] @ said',
          CacheGet (originalText job) (sourceLanguage job) (targetLanguage job) # afterLookup job (world n)
            @ [Backoff (2 ^ Suc (retryCount job) * 1000)] @ calls',
          n', pauseArrives (world n) \<or> p'))"
  using assms
  by (subst processJob.simps) (auto simp: cacheHit_def afterLookup_def Let_def split: option.splits prod.splits)


lemma afterLookup_retry [simp]:
  "afterLookup (job\<lparr>status := st, retryCount := rc\<rparr>) a = afterLookup job a"
  by (simp add: afterLookup_def split: sum.splits)

text \<open>
  Claim C6. Let \<open>processJob\<close> process a job under the retry budget \<open>maxR\<close>, the attempts being
  numbered from \<open>n\<close>, and let \<open>n'\<close> be the number after its last attempt. It makes at least
  one attempt. Every attempt but the last has failed, and the retry count incremented for
  it is at most \<open>maxR\<close>; the retry count of the job grows by one for every failed attempt.
  The job ends in status error exactly when its last attempt failed, and then its retry
  count exceeds \<open>maxR\<close> and its error is the message of that failure; otherwise it ends
  completed. For a job that enters with a retry count of at most \<open>maxR\<close>, it ends in status
  error if and only if its retry count exceeds \<open>maxR\<close>. The calls are, attempt by attempt,
  the cache lookup and what follows it, and after every attempt but the last a timer of
  \<open>2 ^ retryCount\<close> seconds (in milliseconds), \<open>retryCount\<close> being the count incremented for
  that attempt: each re-attempt starts again from the cache lookup.
\<close>

theorem processJob_retry:
  assumes "processJob world n maxR job = (job', said, calls, n', p)"
  shows "n < n' \<and>
    (\<forall>k. n \<le> k \<and> Suc k < n' \<longrightarrow> failed (world k) \<and> retryCount job + (k - n) + 1 \<le> maxR) \<and>
    retryCount job' = retryCount job + (n' - n - 1) + (if failed (world (n' - 1)) then 1 else 0) \<and>
    status job' = (if failed (world (n' - 1)) then JError else JCompleted) \<and>
    (failed (world (n' - 1)) \<longrightarrow>
       maxR < retryCount job' \<and>
       (\<exists>msg. response (world (n' - 1)) = Inl msg \<and> error job' = Some msg)) \<and>
    (retryCount job \<le> maxR \<longrightarrow> (status job' = JError \<longleftrightarrow> maxR < retryCount job')) \<and>
    calls = concat (map (\<lambda>k.
        CacheGet (originalText job) (sourceLanguage job) (targetLanguage job)
          # afterLookup job (world k)
          @ (if Suc k < n' then [Backoff (2 ^ (retryCount job + (k - n) + 1) * 1000)] else []))
      [n..<n'])"
  using assms
proof (induction "maxR - retryCount job" arbitrary: job n job' said calls n' p rule: less_induct)
  case less
  consider (hit) "cacheHit (world n)"
    | (ok) res where "\<not> cacheHit (world n)" "response (world n) = Inr res"
    | (giveup) msg where "\<not> cacheHit (world n)" "response (world n) = Inl msg" "maxR \<le> retryCount job"
    | (again) msg where "\<not> cacheHit (world n)" "response (world n) = Inl msg" "retryCount job < maxR"
    by (cases "response (world n)"; cases "cacheHit (world n)"; cases "retryCount job < maxR")
      (auto simp: not_less)
  then show ?case
  proof cases
    case hit
    from less.prems processJob_hit[where world=world and n=n and maxR=maxR and job=job, OF hit]
    have eqs: "job' = job\<lparr>status := JCompleted, translatedText := cached (world n)\<rparr>"
      "calls = [CacheGet (originalText job) (sourceLanguage job) (targetLanguage job)]"
      "n' = Suc n" by simp_all
    have al: "afterLookup job (world n) = []" using hit by (simp add: afterLookup_def)
    show ?thesis unfolding eqs using hit by (auto simp: failed_def al)
  next
    case ok
    from less.prems processJob_ok[where world=world and n=n and maxR=maxR and job=job, OF ok]
    have eqs: "job' = job\<lparr>status := JCompleted, translatedText := Some res\<rparr>"
      "calls = CacheGet (originalText job) (sourceLanguage job) (targetLanguage job) # afterLookup job (world n)"
      "n' = Suc n" by simp_all
    show ?thesis unfolding eqs using ok by (auto simp: failed_def)
  next
    case giveup
    from less.prems processJob_giveup[where world=world and n=n and maxR=maxR and job=job, OF giveup]
    have eqs: "job' = job\<lparr>status := JError, retryCount := Suc (retryCount job), error := Some msg\<rparr>"
      "calls = CacheGet (originalText job) (sourceLanguage job) (targetLanguage job) # afterLookup job (world n)"
      "n' = Suc n" by simp_all
    show ?thesis unfolding eqs using giveup by (auto simp: failed_def)
  next
    case again
    let ?job2 = "job\<lparr>status := JTranslating, retryCount := Suc (retryCount job)\<rparr>"
    let ?get = "CacheGet (originalText job) (sourceLanguage job) (targetLanguage job)"
    obtain j2 s2 c2 n2 p2 where
      rec: "processJob world (Suc n) maxR ?job2 = (j2, s2, c2, n2, p2)"
      by (metis prod_cases5)
    from less.prems processJob_again[where world=world and n=n and maxR=maxR and job=job, OF again] rec
    have eqs: "job' = j2" "n' = n2"
      "calls = ?get # afterLookup job (world n) @ [Backoff (2 ^ Suc (retryCount job) * 1000)] @ c2"
      by simp_all
    have m: "maxR - retryCount ?job2 < maxR - retryCount job" using again(3) by simp
    note ih = less.hyps[OF m rec]
    from ih have lt: "Suc n < n2" by blast
    from ih have mid: "\<forall>k. Suc n \<le> k \<and> Suc k < n2 \<longrightarrow>
        failed (world k) \<and> retryCount ?job2 + (k - Suc n) + 1 \<le> maxR" by blast
    from ih have rc: "retryCount j2 =
        retryCount ?job2 + (n2 - Suc n - 1) + (if failed (world (n2 - 1)) then 1 else 0)"
      by blast
    from ih have st: "status j2 = (if failed (world (n2 - 1)) then JError else JCompleted)"
      by blast
    from ih have er: "failed (world (n2 - 1)) \<longrightarrow>
       maxR < retryCount j2 \<and> (\<exists>msg. response (world (n2 - 1)) = Inl msg \<and> error j2 = Some msg)"
      by blast
    from ih have "retryCount ?job2 \<le> maxR \<longrightarrow> (status j2 = JError \<longleftrightarrow> maxR < retryCount j2)"
      by blast
    with again(3) have iff: "status j2 = JError \<longleftrightarrow> maxR < retryCount j2" by simp
    from ih have "c2 = concat (map (\<lambda>k.
        CacheGet (originalText ?job2) (sourceLanguage ?job2) (targetLanguage ?job2)
          # afterLookup ?job2 (world k)
          @ (if Suc k < n2 then [Backoff (2 ^ (retryCount ?job2 + (k - Suc n) + 1) * 1000)] else []))
      [Suc n..<n2])" by blast
    then have cs: "c2 = concat (map (\<lambda>k. ?get # afterLookup job (world k)
          @ (if Suc k < n2 then [Backoff (2 ^ (Suc (retryCount job) + (k - Suc n) + 1) * 1000)] else []))
        [Suc n..<n2])" by (simp cong: if_cong)
    have f0: "failed (world n)" using again by (simp add: failed_def)
    have c1: "n < n2" using lt by simp
    have c2: "failed (world k) \<and> retryCount job + (k - n) + 1 \<le> maxR"
      if "n \<le> k" "Suc k < n2" for k
    proof (cases "k = n")
      case True
      then show ?thesis using f0 again(3) by simp
    next
      case False
      with that have "Suc n \<le> k" by simp
      with mid that(2) have "failed (world k) \<and> retryCount ?job2 + (k - Suc n) + 1 \<le> maxR"
        by blast
      with \<open>Suc n \<le> k\<close> show ?thesis by (auto simp: Suc_diff_le)
    qed
    have c3: "retryCount j2 = retryCount job + (n2 - n - 1) + (if failed (world (n2 - 1)) then 1 else 0)"
      using rc lt by auto
    have c7: "?get # afterLookup job (world n) @ [Backoff (2 ^ Suc (retryCount job) * 1000)] @ c2 =
      concat (map (\<lambda>k. ?get # afterLookup job (world k)
          @ (if Suc k < n2 then [Backoff (2 ^ (retryCount job + (k - n) + 1) * 1000)] else []))
        [n..<n2])"
    proof -
      have up: "[n..<n2] = n # [Suc n..<n2]" using c1 by (simp add: upt_conv_Cons)
      have mp: "map (\<lambda>k. ?get # afterLookup job (world k)
          @ (if Suc k < n2 then [Backoff (2 ^ (Suc (retryCount job) + (k - Suc n) + 1) * 1000)] else []))
        [Suc n..<n2] =
        map (\<lambda>k. ?get # afterLookup job (world k)
          @ (if Suc k < n2 then [Backoff (2 ^ (retryCount job + (k - n) + 1) * 1000)] else []))
        [Suc n..<n2]"
      proof (rule map_cong[OF refl])
        fix k assume "k \<in> set [Suc n..<n2]"
        then have "Suc n \<le> k" by simp
        then have "Suc (retryCount job) + (k - Suc n) + 1 = retryCount job + (k - n) + 1"
          by arith
        then show "?get # afterLookup job (world k)
            @ (if Suc k < n2 then [Backoff (2 ^ (Suc (retryCount job) + (k - Suc n) + 1) * 1000)] else []) =
          ?get # afterLookup job (world k)
            @ (if Suc k < n2 then [Backoff (2 ^ (retryCount job + (k - n) + 1) * 1000)] else [])"
          by (simp only:)
      qed
      show ?thesis unfolding up cs mp using lt by simp
    qed
    show ?thesis unfolding eqs using c1 c2 c3 st er iff c7 again(3) by simp
  qed
qed

theorem processJob_retry_witness:
  "processJob (\<lambda>k. \<lparr>cached = None, detected = ''en'', response = Inl ''HTTP 500'', pauseArrives = False\<rparr>) 0 2
     \<lparr>originalText = ''Hello'', translatedText = None, sourceLanguage = ''en'',
      targetLanguage = ''fr'', status = JPending, error = None, retryCount = 0\<rparr> =
     (\<lparr>originalText = ''Hello'', translatedText = None, sourceLanguage = ''en'',
       targetLanguage = ''fr'', status = JError, error = Some ''HTTP 500'', retryCount = 3\<rparr>,
      [\<lparr>level = LWarning, message = Retry 1 2 ''Hello''\<rparr>,
       \<lparr>level = LWarning, message = Retry 2 2 ''Hello''\<rparr>,
       \<lparr>level = LError, message = FailedToTranslate ''Hello'' ''HTTP 500''\<rparr>],
      [CacheGet ''Hello'' ''en'' ''fr'', WaitForSlot, Translate ''Hello'' ''en'' ''fr'', Backoff 2000,
       CacheGet ''Hello'' ''en'' ''fr'', WaitForSlot, Translate ''Hello'' ''en'' ''fr'', Backoff 4000,
       CacheGet ''Hello'' ''en'' ''fr'', WaitForSlot, Translate ''Hello'' ''en'' ''fr''],
      3, False) \<and>
   failed \<lparr>cached = None, detected = ''en'', response = Inl ''HTTP 500'', pauseArrives = False\<rparr> \<and>
   (0::nat) < 3"
proof -
  let ?a = "\<lparr>cached = None, detected = ''en'', response = Inl ''HTTP 500'', pauseArrives = False\<rparr>"
  let ?w = "\<lambda>k::nat. ?a"
  let ?j = "\<lparr>originalText = ''Hello'', translatedText = None, sourceLanguage = ''en'',
      targetLanguage = ''fr'', status = JPending, error = None, retryCount = 0\<rparr>"
  have miss: "\<not> cacheHit (?w k)" for k by (simp add: cacheHit_def)
  have resp: "response (?w k) = Inl ''HTTP 500''" for k by simp
  have ev: "processJob ?w 0 2 ?j =
     (\<lparr>originalText = ''Hello'', translatedText = None, sourceLanguage = ''en'',
       targetLanguage = ''fr'', status = JError, error = Some ''HTTP 500'', retryCount = 3\<rparr>,
      [\<lparr>level = LWarning, message = Retry 1 2 ''Hello''\<rparr>,
       \<lparr>level = LWarning, message = Retry 2 2 ''Hello''\<rparr>,
       \<lparr>level = LError, message = FailedToTranslate ''Hello'' ''HTTP 500''\<rparr>],
      [CacheGet ''Hello'' ''en'' ''fr'', WaitForSlot, Translate ''Hello'' ''en'' ''fr'', Backoff 2000,
       CacheGet ''Hello'' ''en'' ''fr'', WaitForSlot, Translate ''Hello'' ''en'' ''fr'', Backoff 4000,
       CacheGet ''Hello'' ''en'' ''fr'', WaitForSlot, Translate ''Hello'' ''en'' ''fr''],
      3, False)"
    by (simp add: processJob_again[where world="?w", OF miss resp]
        processJob_giveup[where world="?w", OF miss resp] afterLookup_def cacheHit_def
        numeral_2_eq_2 numeral_3_eq_3)
  from processJob_retry[OF ev] ev show ?thesis by (simp add: failed_def cacheHit_def)
qed

subsection \<open>Starting a translation\<close>




subsection \<open>Batches: what a run touches\<close>

lemma batches_addLog [simp]: "batches (addLog l m s) = batches s"
  by (simp add: addLog_def)

lemma batches_setBatch [simp]: "batches (setBatch bi b s) = (batches s)[bi := b]"
  by (simp add: setBatch_def)

lemma batches_updateSessionProgress [simp]: "batches (updateSessionProgress s) = batches s"
  by (simp add: updateSessionProgress_def)

lemma pauseTranslation_simps [simp]:
  "pauseRequested (pauseTranslation r) = True"
  "batches (session (pauseTranslation r)) = batches (session r)"
  "trace (pauseTranslation r) = trace r"
  "tick (pauseTranslation r) = tick r"
  by (simp_all add: pauseTranslation_def)

lemma notAfter_same: "notAfter (bi, i, e) (bi, i, e')"
  by (simp add: notAfter_def)

lemma processPending_frame:
  assumes "bi < length (batches (session r))" "sorted pos"
  shows "length (batches (session (processPending world maxR bi pos r))) = length (batches (session r)) \<and>
    (\<forall>b. b \<noteq> bi \<longrightarrow>
       batches (session (processPending world maxR bi pos r)) ! b = batches (session r) ! b) \<and>
    length (jobs (batches (session (processPending world maxR bi pos r)) ! bi)) =
      length (jobs (batches (session r) ! bi)) \<and>
    bstatus (batches (session (processPending world maxR bi pos r)) ! bi) =
      bstatus (batches (session r) ! bi) \<and>
    (\<forall>i. i \<notin> set pos \<longrightarrow>
       jobs (batches (session (processPending world maxR bi pos r)) ! bi) ! i =
       jobs (batches (session r) ! bi) ! i) \<and>
    (\<exists>new. trace (processPending world maxR bi pos r) = trace r @ new \<and>
       (\<forall>x \<in> set new. fst x = bi \<and> fst (snd x) \<in> set pos) \<and> sorted_wrt notAfter new)"
  using assms
proof (induction pos arbitrary: r)
  case Nil
  then show ?case by simp
next
  case (Cons i rest)
  show ?case
  proof (cases "pauseRequested r")
    case True
    then show ?thesis by simp
  next
    case False
    let ?b = "batches (session r) ! bi"
    obtain job' said calls n' p where
      pj: "processJob world (tick r) maxR (jobs ?b ! i) = (job', said, calls, n', p)"
      by (metis prod_cases5)
    define b' where "b' = ?b\<lparr>jobs := (jobs ?b)[i := job'],
        progress := (length (filter isDone ((jobs ?b)[i := job'])), length ((jobs ?b)[i := job']))\<rparr>"
    define r0 where "r0 = r\<lparr>session := (setBatch bi b' (session r))\<lparr>logs := logs (session r) @ said\<rparr>,
        tick := n', trace := trace r @ map (\<lambda>e. (bi, i, e)) calls\<rparr>"
    define r1 where "r1 = (if p then pauseTranslation r0 else r0)"
    have step: "processPending world maxR bi (i # rest) r = processPending world maxR bi rest r1"
      using False pj by (simp add: r1_def r0_def b'_def Let_def)
    have b1: "batches (session r1) = (batches (session r))[bi := b']"
      by (simp add: r1_def r0_def)
    have t1: "trace r1 = trace r @ map (\<lambda>e. (bi, i, e)) calls"
      by (simp add: r1_def r0_def)
    have bi1: "bi < length (batches (session r1))" using Cons.prems(1) by (simp add: b1)
    have srt: "sorted rest" and le: "\<forall>j \<in> set rest. i \<le> j" using Cons.prems(2) by simp_all
    have at: "batches (session r1) ! bi = b'" using Cons.prems(1) by (simp add: b1)
    note ih = Cons.IH[OF bi1 srt]
    let ?r' = "processPending world maxR bi rest r1"
    from ih have l: "length (batches (session ?r')) = length (batches (session r1))" by blast
    from ih have o: "\<forall>b. b \<noteq> bi \<longrightarrow> batches (session ?r') ! b = batches (session r1) ! b" by blast
    from ih have lj: "length (jobs (batches (session ?r') ! bi)) = length (jobs (batches (session r1) ! bi))"
      by blast
    from ih have bs: "bstatus (batches (session ?r') ! bi) = bstatus (batches (session r1) ! bi)"
      by blast
    from ih have fr: "\<forall>i. i \<notin> set rest \<longrightarrow>
       jobs (batches (session ?r') ! bi) ! i = jobs (batches (session r1) ! bi) ! i" by blast
    from ih obtain new where
      tr: "trace ?r' = trace r1 @ new"
      and ps: "\<forall>x \<in> set new. fst x = bi \<and> fst (snd x) \<in> set rest"
      and so: "sorted_wrt notAfter new" by blast
    have c1: "length (batches (session ?r')) = length (batches (session r))"
      using l by (simp add: b1)
    have c2: "\<forall>b. b \<noteq> bi \<longrightarrow> batches (session ?r') ! b = batches (session r) ! b"
      using o by (simp add: b1)
    have c3: "length (jobs (batches (session ?r') ! bi)) = length (jobs ?b)"
      using lj by (simp add: at b'_def)
    have c4: "bstatus (batches (session ?r') ! bi) = bstatus ?b"
      using bs by (simp add: at b'_def)
    have c5: "\<forall>k. k \<notin> set (i # rest) \<longrightarrow> jobs (batches (session ?r') ! bi) ! k = jobs ?b ! k"
      using fr by (simp add: at b'_def)
    let ?new = "map (\<lambda>e. (bi, i, e)) calls @ new"
    have c6a: "trace ?r' = trace r @ ?new" by (simp add: tr t1)
    have c6b: "\<forall>x \<in> set ?new. fst x = bi \<and> fst (snd x) \<in> set (i # rest)"
      using ps by auto
    have c6c: "sorted_wrt notAfter ?new"
      unfolding sorted_wrt_append
    proof (intro conjI ballI)
      show "sorted_wrt notAfter (map (\<lambda>e. (bi, i, e)) calls)"
        by (induction calls) (auto simp: notAfter_def)
      show "sorted_wrt notAfter new" by (rule so)
    next
      fix x y assume "x \<in> set (map (\<lambda>e. (bi, i, e)) calls)" "y \<in> set new"
      then show "notAfter x y" using ps le by (auto simp: notAfter_def)
    qed
    from c6a c6b c6c have c6: "\<exists>new. trace ?r' = trace r @ new \<and>
       (\<forall>x \<in> set new. fst x = bi \<and> fst (snd x) \<in> set (i # rest)) \<and> sorted_wrt notAfter new"
      by blast
    show ?thesis unfolding step using c1 c2 c3 c4 c5 c6 by (intro conjI)
  qed
qed

lemma processBatch_frame:
  assumes "bi < length (batches (session r))"
  shows "length (batches (session (processBatch world maxR bi r))) = length (batches (session r)) \<and>
    (\<forall>b. b \<noteq> bi \<longrightarrow>
       batches (session (processBatch world maxR bi r)) ! b = batches (session r) ! b) \<and>
    length (jobs (batches (session (processBatch world maxR bi r)) ! bi)) =
      length (jobs (batches (session r) ! bi)) \<and>
    (\<forall>i. \<not> (i < length (jobs (batches (session r) ! bi)) \<and>
             isPendingOrError (jobs (batches (session r) ! bi) ! i)) \<longrightarrow>
       jobs (batches (session (processBatch world maxR bi r)) ! bi) ! i =
       jobs (batches (session r) ! bi) ! i) \<and>
    (\<exists>new. trace (processBatch world maxR bi r) = trace r @ new \<and>
       (\<forall>x \<in> set new. fst x = bi \<and> fst (snd x) < length (jobs (batches (session r) ! bi)) \<and>
          isPendingOrError (jobs (batches (session r) ! bi) ! fst (snd x))) \<and>
       sorted_wrt notAfter new)"
proof -
  let ?b0 = "batches (session r) ! bi"
  define b where "b = ?b0\<lparr>bstatus := BProcessing\<rparr>"
  define r1 where "r1 = r\<lparr>session := setBatch bi b (session r)\<rparr>"
  define pos where "pos = filter (\<lambda>i. isPendingOrError (jobs b ! i)) [0..<length (jobs b)]"
  define r2 where "r2 = processPending world maxR bi pos r1"
  define r3 where "r3 = (if \<not> pauseRequested r2
     then r2\<lparr>session := setBatch bi ((batches (session r2) ! bi)\<lparr>bstatus := BCompleted\<rparr>) (session r2)\<rparr>
     else r2)"
  have pb: "processBatch world maxR bi r = r3"
    by (simp add: processBatch_def r3_def r2_def pos_def r1_def b_def Let_def)
  have b1: "batches (session r1) = (batches (session r))[bi := b]" by (simp add: r1_def)
  have t1: "trace r1 = trace r" by (simp add: r1_def)
  have bi1: "bi < length (batches (session r1))" using assms by (simp add: b1)
  have at1: "batches (session r1) ! bi = b" using assms by (simp add: b1)
  have jb: "jobs b = jobs ?b0" by (simp add: b_def)
  have srt: "sorted pos" unfolding pos_def by (rule sorted_wrt_filter) simp
  have mem: "i \<in> set pos \<longleftrightarrow> i < length (jobs ?b0) \<and> isPendingOrError (jobs ?b0 ! i)" for i
    by (auto simp: pos_def jb)
  note pp = processPending_frame[OF bi1 srt, of world maxR, folded r2_def]
  from pp have l: "length (batches (session r2)) = length (batches (session r1))" by blast
  from pp have o: "\<forall>b. b \<noteq> bi \<longrightarrow> batches (session r2) ! b = batches (session r1) ! b" by blast
  from pp have lj: "length (jobs (batches (session r2) ! bi)) = length (jobs (batches (session r1) ! bi))"
    by blast
  from pp have fr: "\<forall>i. i \<notin> set pos \<longrightarrow>
       jobs (batches (session r2) ! bi) ! i = jobs (batches (session r1) ! bi) ! i" by blast
  from pp obtain new where
    tr: "trace r2 = trace r1 @ new"
    and ps: "\<forall>x \<in> set new. fst x = bi \<and> fst (snd x) \<in> set pos"
    and so: "sorted_wrt notAfter new" by blast
  have bi2: "bi < length (batches (session r2))" using bi1 l by simp
  have b3: "batches (session r3) = batches (session r2) \<or>
            batches (session r3) = (batches (session r2))[bi := (batches (session r2) ! bi)\<lparr>bstatus := BCompleted\<rparr>]"
    by (simp add: r3_def)
  have t3: "trace r3 = trace r2" by (simp add: r3_def)
  have l3: "length (batches (session r3)) = length (batches (session r2))"
    using b3 by auto
  have o3: "b' \<noteq> bi \<Longrightarrow> batches (session r3) ! b' = batches (session r2) ! b'" for b'
    using b3 by auto
  have j3: "jobs (batches (session r3) ! bi) = jobs (batches (session r2) ! bi)"
    using b3 bi2 by auto
  have c1: "length (batches (session r3)) = length (batches (session r))"
    using l3 l by (simp add: b1)
  have c2: "\<forall>b'. b' \<noteq> bi \<longrightarrow> batches (session r3) ! b' = batches (session r) ! b'"
    using o3 o by (simp add: b1)
  have c3: "length (jobs (batches (session r3) ! bi)) = length (jobs ?b0)"
    using lj by (simp add: j3 at1 jb)
  have c4: "\<forall>i. \<not> (i < length (jobs ?b0) \<and> isPendingOrError (jobs ?b0 ! i)) \<longrightarrow>
       jobs (batches (session r3) ! bi) ! i = jobs ?b0 ! i"
    using fr by (simp add: j3 at1 jb mem)
  have c5: "\<exists>new. trace r3 = trace r @ new \<and>
       (\<forall>x \<in> set new. fst x = bi \<and> fst (snd x) < length (jobs ?b0) \<and>
          isPendingOrError (jobs ?b0 ! fst (snd x))) \<and>
       sorted_wrt notAfter new"
    using tr ps so by (auto simp: t3 t1 mem)
  show ?thesis unfolding pb using c1 c2 c3 c4 c5 by (intro conjI)
qed

lemma batchLoop_frame:
  assumes "\<forall>b \<in> set bs. b < length (batches (session r))" "sorted bs" "distinct bs"
  shows "length (batches (session (batchLoop world maxR bs r))) = length (batches (session r)) \<and>
    (\<forall>b. length (jobs (batches (session (batchLoop world maxR bs r)) ! b)) =
         length (jobs (batches (session r) ! b))) \<and>
    (\<forall>b. b \<notin> set bs \<or> bstatus (batches (session r) ! b) = BCompleted \<longrightarrow>
       batches (session (batchLoop world maxR bs r)) ! b = batches (session r) ! b) \<and>
    (\<forall>b i. \<not> (i < length (jobs (batches (session r) ! b)) \<and>
               isPendingOrError (jobs (batches (session r) ! b) ! i)) \<longrightarrow>
       jobs (batches (session (batchLoop world maxR bs r)) ! b) ! i =
       jobs (batches (session r) ! b) ! i) \<and>
    (\<exists>new. trace (batchLoop world maxR bs r) = trace r @ new \<and>
       (\<forall>x \<in> set new. fst x \<in> set bs \<and>
          bstatus (batches (session r) ! fst x) \<noteq> BCompleted \<and>
          fst (snd x) < length (jobs (batches (session r) ! fst x)) \<and>
          isPendingOrError (jobs (batches (session r) ! fst x) ! fst (snd x))) \<and>
       sorted_wrt notAfter new)"
  using assms
proof (induction bs arbitrary: r)
  case Nil
  then show ?case by simp
next
  case (Cons bi rest)
  have srt: "sorted rest" and dst: "distinct rest" and lt: "\<forall>b \<in> set rest. bi < b"
    and nin: "bi \<notin> set rest"
    using Cons.prems(2,3) by (auto intro: le_neq_implies_less)
  have bi0: "bi < length (batches (session r))" using Cons.prems(1) by simp
  show ?case
  proof (cases "pauseRequested r")
    case True
    then show ?thesis by simp
  next
    case False
    show ?thesis
    proof (cases "bstatus (batches (session r) ! bi) = BCompleted")
      case True
      have step: "batchLoop world maxR (bi # rest) r = batchLoop world maxR rest r"
        using False True by simp
      have rng: "\<forall>b \<in> set rest. b < length (batches (session r))" using Cons.prems(1) by simp
      note ih = Cons.IH[OF rng srt dst]
      let ?r' = "batchLoop world maxR rest r"
      from ih have c1: "length (batches (session ?r')) = length (batches (session r))" by blast
      from ih have c2: "\<forall>b. length (jobs (batches (session ?r') ! b)) =
         length (jobs (batches (session r) ! b))" by blast
      from ih have c3': "\<forall>b. b \<notin> set rest \<or> bstatus (batches (session r) ! b) = BCompleted \<longrightarrow>
         batches (session ?r') ! b = batches (session r) ! b" by blast
      then have c3: "\<forall>b. b \<notin> set (bi # rest) \<or> bstatus (batches (session r) ! b) = BCompleted \<longrightarrow>
         batches (session ?r') ! b = batches (session r) ! b" by auto
      from ih have c4: "\<forall>b i. \<not> (i < length (jobs (batches (session r) ! b)) \<and>
               isPendingOrError (jobs (batches (session r) ! b) ! i)) \<longrightarrow>
         jobs (batches (session ?r') ! b) ! i = jobs (batches (session r) ! b) ! i" by blast
      from ih obtain new where
        tr: "trace ?r' = trace r @ new"
        and ps: "\<forall>x \<in> set new. fst x \<in> set rest \<and>
          bstatus (batches (session r) ! fst x) \<noteq> BCompleted \<and>
          fst (snd x) < length (jobs (batches (session r) ! fst x)) \<and>
          isPendingOrError (jobs (batches (session r) ! fst x) ! fst (snd x))"
        and so: "sorted_wrt notAfter new" by blast
      from tr ps so have c5: "\<exists>new. trace ?r' = trace r @ new \<and>
         (\<forall>x \<in> set new. fst x \<in> set (bi # rest) \<and>
          bstatus (batches (session r) ! fst x) \<noteq> BCompleted \<and>
          fst (snd x) < length (jobs (batches (session r) ! fst x)) \<and>
          isPendingOrError (jobs (batches (session r) ! fst x) ! fst (snd x))) \<and>
         sorted_wrt notAfter new" by auto
      show ?thesis unfolding step using c1 c2 c3 c4 c5 by (intro conjI)
    next
      case notDone: False
      define r1 where "r1 = processBatch world maxR bi r"
      define r2 where "r2 = r1\<lparr>session := updateSessionProgress (session r1)\<rparr>"
      have step: "batchLoop world maxR (bi # rest) r = batchLoop world maxR rest r2"
        using False notDone by (simp add: r2_def r1_def Let_def)
      have b2: "batches (session r2) = batches (session r1)" by (simp add: r2_def)
      have t2: "trace r2 = trace r1" by (simp add: r2_def)
      note pb = processBatch_frame[OF bi0, of world maxR, folded r1_def]
      from pb have l1: "length (batches (session r1)) = length (batches (session r))" by blast
      from pb have o1: "\<forall>b. b \<noteq> bi \<longrightarrow> batches (session r1) ! b = batches (session r) ! b" by blast
      from pb have lj1: "length (jobs (batches (session r1) ! bi)) =
         length (jobs (batches (session r) ! bi))" by blast
      from pb have fr1: "\<forall>i. \<not> (i < length (jobs (batches (session r) ! bi)) \<and>
             isPendingOrError (jobs (batches (session r) ! bi) ! i)) \<longrightarrow>
         jobs (batches (session r1) ! bi) ! i = jobs (batches (session r) ! bi) ! i" by blast
      from pb obtain new1 where
        tr1: "trace r1 = trace r @ new1"
        and ps1: "\<forall>x \<in> set new1. fst x = bi \<and>
          fst (snd x) < length (jobs (batches (session r) ! bi)) \<and>
          isPendingOrError (jobs (batches (session r) ! bi) ! fst (snd x))"
        and so1: "sorted_wrt notAfter new1" by blast
      have rng: "\<forall>b \<in> set rest. b < length (batches (session r2))"
        using Cons.prems(1) by (simp add: b2 l1)
      note ih = Cons.IH[OF rng srt dst]
      let ?r' = "batchLoop world maxR rest r2"
      have same: "b \<noteq> bi \<Longrightarrow> batches (session r2) ! b = batches (session r) ! b" for b
        using o1 by (simp add: b2)
      from ih have l: "length (batches (session ?r')) = length (batches (session r2))" by blast
      from ih have lj: "\<forall>b. length (jobs (batches (session ?r') ! b)) =
         length (jobs (batches (session r2) ! b))" by blast
      from ih have un: "\<forall>b. b \<notin> set rest \<or> bstatus (batches (session r2) ! b) = BCompleted \<longrightarrow>
         batches (session ?r') ! b = batches (session r2) ! b" by blast
      from ih have fr: "\<forall>b i. \<not> (i < length (jobs (batches (session r2) ! b)) \<and>
               isPendingOrError (jobs (batches (session r2) ! b) ! i)) \<longrightarrow>
         jobs (batches (session ?r') ! b) ! i = jobs (batches (session r2) ! b) ! i" by blast
      from ih obtain new where
        tr: "trace ?r' = trace r2 @ new"
        and ps: "\<forall>x \<in> set new. fst x \<in> set rest \<and>
          bstatus (batches (session r2) ! fst x) \<noteq> BCompleted \<and>
          fst (snd x) < length (jobs (batches (session r2) ! fst x)) \<and>
          isPendingOrError (jobs (batches (session r2) ! fst x) ! fst (snd x))"
        and so: "sorted_wrt notAfter new" by blast
      have c1: "length (batches (session ?r')) = length (batches (session r))"
        using l by (simp add: b2 l1)
      have c2: "\<forall>b. length (jobs (batches (session ?r') ! b)) =
         length (jobs (batches (session r) ! b))"
      proof
        fix b show "length (jobs (batches (session ?r') ! b)) = length (jobs (batches (session r) ! b))"
          using lj lj1 same[of b] by (cases "b = bi") (simp_all add: b2)
      qed
      have c3: "\<forall>b. b \<notin> set (bi # rest) \<or> bstatus (batches (session r) ! b) = BCompleted \<longrightarrow>
         batches (session ?r') ! b = batches (session r) ! b"
      proof (intro allI impI)
        fix b assume h: "b \<notin> set (bi # rest) \<or> bstatus (batches (session r) ! b) = BCompleted"
        with notDone have ne: "b \<noteq> bi" by auto
        with h same[of b] have "b \<notin> set rest \<or> bstatus (batches (session r2) ! b) = BCompleted"
          by auto
        with un have "batches (session ?r') ! b = batches (session r2) ! b" by blast
        with same[OF ne] show "batches (session ?r') ! b = batches (session r) ! b" by simp
      qed
      have c4: "\<forall>b i. \<not> (i < length (jobs (batches (session r) ! b)) \<and>
               isPendingOrError (jobs (batches (session r) ! b) ! i)) \<longrightarrow>
         jobs (batches (session ?r') ! b) ! i = jobs (batches (session r) ! b) ! i"
      proof (intro allI impI)
        fix b i assume h: "\<not> (i < length (jobs (batches (session r) ! b)) \<and>
               isPendingOrError (jobs (batches (session r) ! b) ! i))"
        show "jobs (batches (session ?r') ! b) ! i = jobs (batches (session r) ! b) ! i"
        proof (cases "b = bi")
          case True
          with nin un have "batches (session ?r') ! b = batches (session r2) ! b" by blast
          with True fr1 h show ?thesis by (simp add: b2)
        next
          case False
          from same[OF False] h fr show ?thesis by simp
        qed
      qed
      let ?new = "new1 @ new"
      have c5a: "trace ?r' = trace r @ ?new" by (simp add: tr t2 tr1)
      have c5b: "\<forall>x \<in> set ?new. fst x \<in> set (bi # rest) \<and>
          bstatus (batches (session r) ! fst x) \<noteq> BCompleted \<and>
          fst (snd x) < length (jobs (batches (session r) ! fst x)) \<and>
          isPendingOrError (jobs (batches (session r) ! fst x) ! fst (snd x))"
      proof
        fix x assume "x \<in> set ?new"
        then consider "x \<in> set new1" | "x \<in> set new" by auto
        then show "fst x \<in> set (bi # rest) \<and>
          bstatus (batches (session r) ! fst x) \<noteq> BCompleted \<and>
          fst (snd x) < length (jobs (batches (session r) ! fst x)) \<and>
          isPendingOrError (jobs (batches (session r) ! fst x) ! fst (snd x))"
        proof cases
          case 1
          with ps1 notDone show ?thesis by simp
        next
          case 2
          with ps have p: "fst x \<in> set rest"
            "bstatus (batches (session r2) ! fst x) \<noteq> BCompleted"
            "fst (snd x) < length (jobs (batches (session r2) ! fst x))"
            "isPendingOrError (jobs (batches (session r2) ! fst x) ! fst (snd x))" by auto
          from p(1) nin have "fst x \<noteq> bi" by auto
          from same[OF this] p show ?thesis by simp
        qed
      qed
      have c5c: "sorted_wrt notAfter ?new"
        unfolding sorted_wrt_append
      proof (intro conjI ballI)
        show "sorted_wrt notAfter new1" by (rule so1)
        show "sorted_wrt notAfter new" by (rule so)
      next
        fix x y assume "x \<in> set new1" "y \<in> set new"
        with ps1 ps lt show "notAfter x y" by (auto simp: notAfter_def)
      qed
      from c5a c5b c5c have c5: "\<exists>new. trace ?r' = trace r @ new \<and>
         (\<forall>x \<in> set new. fst x \<in> set (bi # rest) \<and>
          bstatus (batches (session r) ! fst x) \<noteq> BCompleted \<and>
          fst (snd x) < length (jobs (batches (session r) ! fst x)) \<and>
          isPendingOrError (jobs (batches (session r) ! fst x) ! fst (snd x))) \<and>
         sorted_wrt notAfter new" by blast
      show ?thesis unfolding step using c1 c2 c3 c4 c5 by (intro conjI)
    qed
  qed
qed

subsection \<open>Resuming a session\<close>

lemma generateFinalResult_batches [simp]:
  "batches (fst (generateFinalResult s)) = batches s"
  by (simp add: generateFinalResult_def split: sum.splits)

lemma processBatches_frame:
  "batches (session (fst (processBatches world maxR r))) =
     batches (session (batchLoop world maxR [0..<length (batches (session r))] r))"
  "trace (fst (processBatches world maxR r)) =
     trace (batchLoop world maxR [0..<length (batches (session r))] r)"
  by (simp_all add: processBatches_def Let_def split: prod.splits)
    (metis fst_conv generateFinalResult_batches)

lemma resumeTranslation_run:
  assumes "currentSession sv = Some s" and "\<not> isProcessing sv"
    and "resumeTranslation world n envMaxRetries sv = (sv', n', tr, x)"
  shows "\<exists>s'. currentSession sv' = Some s' \<and>
     batches s' = batches (session (batchLoop world envMaxRetries [0..<length (batches s)]
        \<lparr>session = addLog LInfo Resuming (s\<lparr>sstatus := SProcessing\<rparr>),
         pauseRequested = False, tick = n, trace = []\<rparr>)) \<and>
     tr = trace (batchLoop world envMaxRetries [0..<length (batches s)]
        \<lparr>session = addLog LInfo Resuming (s\<lparr>sstatus := SProcessing\<rparr>),
         pauseRequested = False, tick = n, trace = []\<rparr>)"
proof -
  let ?init = "\<lparr>session = addLog LInfo Resuming (s\<lparr>sstatus := SProcessing\<rparr>),
         pauseRequested = False, tick = n, trace = []\<rparr>"
  obtain r e where pb: "processBatches world envMaxRetries ?init = (r, e)" by (cases "processBatches world envMaxRetries ?init")
  from processBatches_frame[of world envMaxRetries ?init] pb
  have b: "batches (session r) = batches (session (batchLoop world envMaxRetries [0..<length (batches s)] ?init))"
    and t: "trace r = trace (batchLoop world envMaxRetries [0..<length (batches s)] ?init)"
    by simp_all
  from assms pb show ?thesis
    by (cases e) (auto simp: resumeTranslation_def b t)
qed

text \<open>
  A call of \<^verbatim>\<open>resumeTranslation\<close> that is accepted and runs alone, whatever the cache and the
  backend answer and whenever a pause arrives: every call to a collaborator is made for a
  job that was pending or in error in a batch that was not completed when the call
  began, so the backend is not called for a job that was completed; the calls follow the
  order of batches and of jobs; completed batches and all jobs that were neither pending
  nor in error are as before.
\<close>

lemma resumeTranslation_skips_completed:
  assumes "currentSession sv = Some s" and "\<not> isProcessing sv"
    and "resumeTranslation world n envMaxRetries sv = (sv', n', tr, x)"
  shows "\<exists>s'. currentSession sv' = Some s' \<and>
     length (batches s') = length (batches s) \<and>
     (\<forall>e \<in> set tr. fst e < length (batches s) \<and>
        bstatus (batches s ! fst e) \<noteq> BCompleted \<and>
        fst (snd e) < length (jobs (batches s ! fst e)) \<and>
        isPendingOrError (jobs (batches s ! fst e) ! fst (snd e))) \<and>
     (\<forall>bi i q src tgt. (bi, i, Translate q src tgt) \<in> set tr \<longrightarrow>
        status (jobs (batches s ! bi) ! i) \<noteq> JCompleted) \<and>
     sorted_wrt notAfter tr \<and>
     (\<forall>bi. bstatus (batches s ! bi) = BCompleted \<longrightarrow> batches s' ! bi = batches s ! bi) \<and>
     (\<forall>bi i. \<not> (i < length (jobs (batches s ! bi)) \<and> isPendingOrError (jobs (batches s ! bi) ! i)) \<longrightarrow>
        jobs (batches s' ! bi) ! i = jobs (batches s ! bi) ! i)"
proof -
  let ?init = "\<lparr>session = addLog LInfo Resuming (s\<lparr>sstatus := SProcessing\<rparr>),
         pauseRequested = False, tick = n, trace = []\<rparr>"
  let ?fin = "batchLoop world envMaxRetries [0..<length (batches s)] ?init"
  from resumeTranslation_run[OF assms] obtain s' where
    cs: "currentSession sv' = Some s'" and bs: "batches s' = batches (session ?fin)"
    and tr: "tr = trace ?fin" by blast
  have b0: "batches (session ?init) = batches s" by simp
  have rng: "\<forall>b \<in> set [0..<length (batches s)]. b < length (batches (session ?init))" by simp
  note fr = batchLoop_frame[OF rng sorted_upt distinct_upt, of world envMaxRetries, unfolded b0]
  from fr have c1: "length (batches (session ?fin)) = length (batches s)" by blast
  from fr have c3: "\<forall>b. b \<notin> set [0..<length (batches s)] \<or> bstatus (batches s ! b) = BCompleted \<longrightarrow>
       batches (session ?fin) ! b = batches s ! b" by blast
  from fr have c4: "\<forall>b i. \<not> (i < length (jobs (batches s ! b)) \<and>
               isPendingOrError (jobs (batches s ! b) ! i)) \<longrightarrow>
       jobs (batches (session ?fin) ! b) ! i = jobs (batches s ! b) ! i" by blast
  from fr obtain new where
    t: "trace ?fin = trace ?init @ new"
    and ps: "\<forall>x \<in> set new. fst x \<in> set [0..<length (batches s)] \<and>
          bstatus (batches s ! fst x) \<noteq> BCompleted \<and>
          fst (snd x) < length (jobs (batches s ! fst x)) \<and>
          isPendingOrError (jobs (batches s ! fst x) ! fst (snd x))"
    and so: "sorted_wrt notAfter new" by blast
  from t tr have trn: "tr = new" by simp
  have d1: "\<forall>e \<in> set tr. fst e < length (batches s) \<and>
        bstatus (batches s ! fst e) \<noteq> BCompleted \<and>
        fst (snd e) < length (jobs (batches s ! fst e)) \<and>
        isPendingOrError (jobs (batches s ! fst e) ! fst (snd e))"
    using ps unfolding trn by simp
  have d2: "\<forall>bi i q src tgt. (bi, i, Translate q src tgt) \<in> set tr \<longrightarrow>
        status (jobs (batches s ! bi) ! i) \<noteq> JCompleted"
  proof (intro allI impI)
    fix bi i q src tgt assume "(bi, i, Translate q src tgt) \<in> set tr"
    with d1 have "isPendingOrError (jobs (batches s ! bi) ! i)" by fastforce
    then show "status (jobs (batches s ! bi) ! i) \<noteq> JCompleted"
      by (auto simp: isPendingOrError_def)
  qed
  have d3: "sorted_wrt notAfter tr" using so unfolding trn .
  have d4: "\<forall>bi. bstatus (batches s ! bi) = BCompleted \<longrightarrow> batches s' ! bi = batches s ! bi"
    using c3 by (simp add: bs)
  have d5: "\<forall>bi i. \<not> (i < length (jobs (batches s ! bi)) \<and> isPendingOrError (jobs (batches s ! bi) ! i)) \<longrightarrow>
        jobs (batches s' ! bi) ! i = jobs (batches s ! bi) ! i"
    using c4 by (simp add: bs)
  have d0: "length (batches s') = length (batches s)" using c1 by (simp add: bs)
  from cs d0 d1 d2 d3 d4 d5 show ?thesis by (intro exI[of _ s'] conjI)
qed

text \<open>
  The lemma above is about a call of \<^verbatim>\<open>resumeTranslation\<close> that runs alone. After
  \<^verbatim>\<open>pauseTranslation\<close> this is the only possibility, \<^verbatim>\<open>isProcessing\<close> staying set until the
  paused run has returned. \<^verbatim>\<open>stopTranslation\<close> clears \<^verbatim>\<open>isProcessing\<close> at once, so that a resume
  is accepted while the stopped run still waits for a collaborator.

  Claim C9 at such a session. The first run has made two failed attempts on job 0 and
  waits in the back-off before the third (4 seconds); job 0 is in status translating, job
  1 pending. The session is stopped and, \<^verbatim>\<open>canResume\<close> holding, resumed. The second run
  selects job 1 only, translates it, completes the batch and the session, and returns
  with \<^verbatim>\<open>pauseRequested\<close> cleared. Then the timer of the first run fires. What is left of its
  loop over the jobs it selected when it entered the batch, positions 0 and 1, is
  \<open>processPending\<close> on these positions in the state the second run left: it retries job 0
  and goes on to job 1, which is completed by now. The cache lookup misses, the entry of
  the second run being stored under the detected language \<^verbatim>\<open>en\<close> and looked up under
  \<^verbatim>\<open>auto\<close>, and the backend is called for job 1 a second time.
\<close>

theorem resume_after_stop_translates_again:
  "(let waiting =
      \<lparr>currentSession = Some
        \<lparr>sessionSourceLanguage = ''auto'', sessionTargetLanguage = ''fr'',
         originalJson = JObj [(''a'', JStr ''Hello''), (''b'', JStr ''World'')],
         translatedJson = None,
         batches = [\<lparr>jobs = [\<lparr>originalText = ''Hello'', translatedText = None, sourceLanguage = ''auto'',
                targetLanguage = ''fr'', status = JTranslating, error = None, retryCount = 2\<rparr>,
                             \<lparr>originalText = ''World'', translatedText = None, sourceLanguage = ''auto'',
                targetLanguage = ''fr'', status = JPending, error = None, retryCount = 0\<rparr>],
                     bstatus = BProcessing, progress = (0, 0)\<rparr>],
         totalStrings = 2, translatedStrings = 0, skippedStrings = 0, errorStrings = 0,
         sstatus = SProcessing,
         logs = [\<lparr>level = LInfo, message = Starting 2 2\<rparr>,
                 \<lparr>level = LInfo, message = Detected ''en'' ''Hello''\<rparr>,
                 \<lparr>level = LWarning, message = Retry 1 3 ''Hello''\<rparr>,
                 \<lparr>level = LInfo, message = Detected ''en'' ''Hello''\<rparr>,
                 \<lparr>level = LWarning, message = Retry 2 3 ''Hello''\<rparr>]\<rparr>,
       isProcessing = True, servicePauseRequested = False\<rparr>;
        world = (\<lambda>k. \<lparr>cached = None, detected = ''en'',
                  response = (if k < 2 then Inl ''HTTP 500'' else if k = 3 then Inr ''Bonjour'' else Inr ''Monde''),
                  pauseArrives = False\<rparr>);
        stopped = stopTranslation waiting;
        resumed = fst (resumeTranslation world 2 3 stopped);
        firstRun = processPending world 3 0 [0, 1]
          \<lparr>session = the (currentSession resumed),
           pauseRequested = servicePauseRequested resumed, tick = 3, trace = []\<rparr>
    in canResume stopped \<and>
       snd (resumeTranslation world 2 3 stopped) =
         (3,
          [(0, 1, CacheGet ''World'' ''auto'' ''fr''), (0, 1, WaitForSlot),
        (0, 1, DetectLanguage ''World''), (0, 1, Translate ''World'' ''en'' ''fr''),
        (0, 1, CacheSet ''World'' ''en'' ''fr'' ''Monde'')],
          None) \<and>
       map status (jobs (batches (the (currentSession resumed)) ! 0)) = [JTranslating, JCompleted] \<and>
       \<not> servicePauseRequested resumed \<and>
       trace firstRun =
         [(0, 0, CacheGet ''Hello'' ''auto'' ''fr''), (0, 0, WaitForSlot),
        (0, 0, DetectLanguage ''Hello''), (0, 0, Translate ''Hello'' ''en'' ''fr''),
        (0, 0, CacheSet ''Hello'' ''en'' ''fr'' ''Bonjour''),
        (0, 1, CacheGet ''World'' ''auto'' ''fr''), (0, 1, WaitForSlot),
        (0, 1, DetectLanguage ''World''), (0, 1, Translate ''World'' ''en'' ''fr''),
        (0, 1, CacheSet ''World'' ''en'' ''fr'' ''Monde'')] \<and>
       getCacheKey ''World'' ''auto'' ''fr'' \<noteq> getCacheKey ''World'' ''en'' ''fr'')"
proof -
  let ?w = "(\<lambda>k. \<lparr>cached = None, detected = ''en'',
                  response = (if k < 2 then Inl ''HTTP 500'' else if k = 3 then Inr ''Bonjour'' else Inr ''Monde''),
                  pauseArrives = False\<rparr>)"
  let ?waiting = "\<lparr>currentSession = Some
        \<lparr>sessionSourceLanguage = ''auto'', sessionTargetLanguage = ''fr'',
         originalJson = JObj [(''a'', JStr ''Hello''), (''b'', JStr ''World'')],
         translatedJson = None,
         batches = [\<lparr>jobs = [\<lparr>originalText = ''Hello'', translatedText = None, sourceLanguage = ''auto'',
                targetLanguage = ''fr'', status = JTranslating, error = None, retryCount = 2\<rparr>,
                             \<lparr>originalText = ''World'', translatedText = None, sourceLanguage = ''auto'',
                targetLanguage = ''fr'', status = JPending, error = None, retryCount = 0\<rparr>],
                     bstatus = BProcessing, progress = (0, 0)\<rparr>],
         totalStrings = 2, translatedStrings = 0, skippedStrings = 0, errorStrings = 0,
         sstatus = SProcessing,
         logs = [\<lparr>level = LInfo, message = Starting 2 2\<rparr>,
                 \<lparr>level = LInfo, message = Detected ''en'' ''Hello''\<rparr>,
                 \<lparr>level = LWarning, message = Retry 1 3 ''Hello''\<rparr>,
                 \<lparr>level = LInfo, message = Detected ''en'' ''Hello''\<rparr>,
                 \<lparr>level = LWarning, message = Retry 2 3 ''Hello''\<rparr>]\<rparr>,
       isProcessing = True, servicePauseRequested = False\<rparr>"
  let ?stopped = "\<lparr>currentSession = Some
        \<lparr>sessionSourceLanguage = ''auto'', sessionTargetLanguage = ''fr'',
         originalJson = JObj [(''a'', JStr ''Hello''), (''b'', JStr ''World'')],
         translatedJson = None,
         batches = [\<lparr>jobs = [\<lparr>originalText = ''Hello'', translatedText = None, sourceLanguage = ''auto'',
                targetLanguage = ''fr'', status = JTranslating, error = None, retryCount = 2\<rparr>,
                             \<lparr>originalText = ''World'', translatedText = None, sourceLanguage = ''auto'',
                targetLanguage = ''fr'', status = JPending, error = None, retryCount = 0\<rparr>],
                     bstatus = BProcessing, progress = (0, 0)\<rparr>],
         totalStrings = 2, translatedStrings = 0, skippedStrings = 0, errorStrings = 0,
         sstatus = SPaused,
         logs = [\<lparr>level = LInfo, message = Starting 2 2\<rparr>,
                 \<lparr>level = LInfo, message = Detected ''en'' ''Hello''\<rparr>,
                 \<lparr>level = LWarning, message = Retry 1 3 ''Hello''\<rparr>,
                 \<lparr>level = LInfo, message = Detected ''en'' ''Hello''\<rparr>,
                 \<lparr>level = LWarning, message = Retry 2 3 ''Hello''\<rparr>,
                 \<lparr>level = LInfo, message = Stopped\<rparr>]\<rparr>,
       isProcessing = False, servicePauseRequested = True\<rparr>"
  let ?resumed = "\<lparr>currentSession = Some
        \<lparr>sessionSourceLanguage = ''auto'', sessionTargetLanguage = ''fr'',
         originalJson = JObj [(''a'', JStr ''Hello''), (''b'', JStr ''World'')],
         translatedJson = Some (JObj [(''a'', JStr ''Monde''), (''b'', JStr ''World'')]),
         batches = [\<lparr>jobs = [\<lparr>originalText = ''Hello'', translatedText = None, sourceLanguage = ''auto'',
                targetLanguage = ''fr'', status = JTranslating, error = None, retryCount = 2\<rparr>,
                             \<lparr>originalText = ''World'', translatedText = Some ''Monde'', sourceLanguage = ''auto'',
                targetLanguage = ''fr'', status = JCompleted, error = None, retryCount = 0\<rparr>],
                     bstatus = BCompleted, progress = (1, 2)\<rparr>],
         totalStrings = 2, translatedStrings = 1, skippedStrings = 0, errorStrings = 0,
         sstatus = SCompleted,
         logs = [\<lparr>level = LInfo, message = Starting 2 2\<rparr>,
                 \<lparr>level = LInfo, message = Detected ''en'' ''Hello''\<rparr>,
                 \<lparr>level = LWarning, message = Retry 1 3 ''Hello''\<rparr>,
                 \<lparr>level = LInfo, message = Detected ''en'' ''Hello''\<rparr>,
                 \<lparr>level = LWarning, message = Retry 2 3 ''Hello''\<rparr>,
                 \<lparr>level = LInfo, message = Stopped\<rparr>,
                 \<lparr>level = LInfo, message = Resuming\<rparr>,
                 \<lparr>level = LInfo, message = Detected ''en'' ''World''\<rparr>,
                 \<lparr>level = LInfo, message = Translated ''World'' ''Monde''\<rparr>,
                 \<lparr>level = LSuccess, message = FinalGenerated\<rparr>,
                 \<lparr>level = LSuccess, message = ResumedAndCompleted\<rparr>]\<rparr>,
       isProcessing = False, servicePauseRequested = False\<rparr>"
  let ?J = "JObj [(''a'', JStr ''Hello''), (''b'', JStr ''World'')]"
  have ex: "extractStrings ?J [] = [([''a''], ''Hello''), ([''b''], ''World'')] \<and>
      deduplicateStrings [([''a''], ''Hello''), ([''b''], ''World'')] =
      Inr ([\<lparr>upath = [''a''], uvalue = ''Hello'', originalIndices = [0]\<rparr>,
            \<lparr>upath = [''b''], uvalue = ''World'', originalIndices = [1]\<rparr>],
           [(''Hello'', [0]), (''World'', [1])])"
  proof
    show "extractStrings ?J [] = [([''a''], ''Hello''), ([''b''], ''World'')]"
      by (simp add: shouldTranslate_Hello shouldTranslate_World)
    show "deduplicateStrings [([''a''], ''Hello''), ([''b''], ''World'')] =
      Inr ([\<lparr>upath = [''a''], uvalue = ''Hello'', originalIndices = [0]\<rparr>,
            \<lparr>upath = [''b''], uvalue = ''World'', originalIndices = [1]\<rparr>],
           [(''Hello'', [0]), (''World'', [1])])"
      by code_simp
  qed
  have st: "stopTranslation ?waiting = ?stopped"
    by (simp add: stopTranslation_def addLog_def)
  have cr: "canResume ?stopped" by (simp add: canResume_def)
  have pj0: "processJob ?w 2 3 \<lparr>originalText = ''World'', translatedText = None, sourceLanguage = ''auto'',
                targetLanguage = ''fr'', status = JPending, error = None, retryCount = 0\<rparr> =
     (\<lparr>originalText = ''World'', translatedText = Some ''Monde'', sourceLanguage = ''auto'',
                targetLanguage = ''fr'', status = JCompleted, error = None, retryCount = 0\<rparr>,
      [\<lparr>level = LInfo, message = Detected ''en'' ''World''\<rparr>,
       \<lparr>level = LInfo, message = Translated ''World'' ''Monde''\<rparr>],
      [CacheGet ''World'' ''auto'' ''fr'', WaitForSlot, DetectLanguage ''World'',
       Translate ''World'' ''en'' ''fr'', CacheSet ''World'' ''en'' ''fr'' ''Monde''],
      3, False)"
    by (simp add: processJob.simps Let_def)
  have pj1: "processJob ?w 3 3 \<lparr>originalText = ''Hello'', translatedText = None, sourceLanguage = ''auto'',
                targetLanguage = ''fr'', status = JTranslating, error = None, retryCount = 2\<rparr> =
     (\<lparr>originalText = ''Hello'', translatedText = Some ''Bonjour'', sourceLanguage = ''auto'',
                targetLanguage = ''fr'', status = JCompleted, error = None, retryCount = 2\<rparr>,
      [\<lparr>level = LInfo, message = Detected ''en'' ''Hello''\<rparr>,
       \<lparr>level = LInfo, message = Translated ''Hello'' ''Bonjour''\<rparr>],
      [CacheGet ''Hello'' ''auto'' ''fr'', WaitForSlot, DetectLanguage ''Hello'',
       Translate ''Hello'' ''en'' ''fr'', CacheSet ''Hello'' ''en'' ''fr'' ''Bonjour''],
      4, False)"
    by (simp add: processJob.simps Let_def)
  have pj2: "processJob ?w 4 3 \<lparr>originalText = ''World'', translatedText = Some ''Monde'', sourceLanguage = ''auto'',
                targetLanguage = ''fr'', status = JCompleted, error = None, retryCount = 0\<rparr> =
     (\<lparr>originalText = ''World'', translatedText = Some ''Monde'', sourceLanguage = ''auto'',
                targetLanguage = ''fr'', status = JCompleted, error = None, retryCount = 0\<rparr>,
      [\<lparr>level = LInfo, message = Detected ''en'' ''World''\<rparr>,
       \<lparr>level = LInfo, message = Translated ''World'' ''Monde''\<rparr>],
      [CacheGet ''World'' ''auto'' ''fr'', WaitForSlot, DetectLanguage ''World'',
       Translate ''World'' ''en'' ''fr'', CacheSet ''World'' ''en'' ''fr'' ''Monde''],
      5, False)"
    by (simp add: processJob.simps Let_def)
  have rs: "resumeTranslation ?w 2 3 ?stopped =
     (?resumed, 3,
      [(0, 1, CacheGet ''World'' ''auto'' ''fr''), (0, 1, WaitForSlot),
        (0, 1, DetectLanguage ''World''), (0, 1, Translate ''World'' ''en'' ''fr''),
        (0, 1, CacheSet ''World'' ''en'' ''fr'' ''Monde'')],
      None)"
    by (simp add: resumeTranslation_def processBatches_def processBatch_def pj0
        setBatch_def addLog_def isPendingOrError_def isDone_def updateSessionProgress_def
        generateFinalResult_def buildTranslationMap_def ex applyTranslations_def cloneDeep_def
        Let_def del: extractStrings.simps)
  have fr: "trace (processPending ?w 3 0 [0, 1]
          \<lparr>session = the (currentSession ?resumed),
           pauseRequested = servicePauseRequested ?resumed, tick = 3, trace = []\<rparr>) =
         [(0, 0, CacheGet ''Hello'' ''auto'' ''fr''), (0, 0, WaitForSlot),
        (0, 0, DetectLanguage ''Hello''), (0, 0, Translate ''Hello'' ''en'' ''fr''),
        (0, 0, CacheSet ''Hello'' ''en'' ''fr'' ''Bonjour''),
        (0, 1, CacheGet ''World'' ''auto'' ''fr''), (0, 1, WaitForSlot),
        (0, 1, DetectLanguage ''World''), (0, 1, Translate ''World'' ''en'' ''fr''),
        (0, 1, CacheSet ''World'' ''en'' ''fr'' ''Monde'')]"
    by (simp add: pj1 pj2 setBatch_def isDone_def Let_def)
  have keys: "getCacheKey ''World'' ''auto'' ''fr'' \<noteq> getCacheKey ''World'' ''en'' ''fr''"
    by code_simp
  show ?thesis
    unfolding Let_def st rs fst_conv snd_conv using cr fr keys by simp
qed

subsection \<open>Finalization\<close>

lemma startTranslation_run:
  assumes "\<not> isProcessing sv"
    and "extractStrings jsonData [] = strings" and "strings \<noteq> []"
    and "deduplicateStrings strings = Inr (uniqueStrings, duplicateMap)"
    and "createBatches (configSourceLanguage config) (configTargetLanguage config) uniqueStrings
           (batchSize config) = Some bs"
    and "processBatches world (maxRetries config)
           \<lparr>session =
              (addLog LInfo (Starting (length strings) (length uniqueStrings))
                 \<lparr>sessionSourceLanguage = configSourceLanguage config,
                  sessionTargetLanguage = configTargetLanguage config,
                  originalJson = jsonData, translatedJson = None, batches = [],
                  totalStrings = length strings, translatedStrings = 0,
                  skippedStrings = 0, errorStrings = 0, sstatus = SProcessing,
                  logs = []\<rparr>)\<lparr>batches := bs\<rparr>,
            pauseRequested = False, tick = n, trace = []\<rparr> = (r, None)"
    and "\<not> pauseRequested r"
  shows "startTranslation world n sv jsonData config =
     Some (\<lparr>currentSession = Some (addLog LSuccess TranslationCompleted ((session r)\<lparr>sstatus := SCompleted\<rparr>)),
            isProcessing = False, servicePauseRequested = False\<rparr>,
           tick r, trace r,
           Inr (addLog LSuccess TranslationCompleted ((session r)\<lparr>sstatus := SCompleted\<rparr>)))"
  using assms(1,3,7) assms(6) unfolding startTranslation_def assms(2) Let_def
  by (simp add: assms(4,5) addLog_def)

text \<open>
  Claim C1 at a run in which the first job ends in error. The tree holds two strings and
  one batch of two jobs is made. Every attempt on the first job fails and, the retry
  budget used up, the job ends in status error; the second job is translated. In
  \<^verbatim>\<open>generateFinalResult\<close> the counter \<^verbatim>\<open>uniqueIndex\<close> is advanced only inside the test for a
  completed job, so it is still 0 when the second job is reached: the translation of
  \<^verbatim>\<open>World\<close> is stored under the path of the first unique string, \<^verbatim>\<open>Hello\<close>. The session is
  completed with \<^verbatim>\<open>Monde\<close> at the key \<^verbatim>\<open>a\<close> and \<^verbatim>\<open>World\<close> left at the key \<^verbatim>\<open>b\<close>.
\<close>

theorem generateFinalResult_shifts_translations:
  "startTranslation
     (\<lambda>k. if k < 4
          then \<lparr>cached = None, detected = ''en'', response = Inl ''HTTP 500'', pauseArrives = False\<rparr>
          else \<lparr>cached = None, detected = ''en'', response = Inr ''Monde'', pauseArrives = False\<rparr>)
     0 \<lparr>currentSession = None, isProcessing = False, servicePauseRequested = False\<rparr>
     (JObj [(''a'', JStr ''Hello''), (''b'', JStr ''World'')])
     \<lparr>configSourceLanguage = ''auto'', configTargetLanguage = ''fr'', batchSize = 50, maxRetries = 3\<rparr> =
   (let finished =
      \<lparr>sessionSourceLanguage = ''auto'', sessionTargetLanguage = ''fr'',
       originalJson = JObj [(''a'', JStr ''Hello''), (''b'', JStr ''World'')],
       translatedJson = Some (JObj [(''a'', JStr ''Monde''), (''b'', JStr ''World'')]),
       batches =
         [\<lparr>jobs =
             [\<lparr>originalText = ''Hello'', translatedText = None, sourceLanguage = ''auto'',
               targetLanguage = ''fr'', status = JError, error = Some ''HTTP 500'', retryCount = 4\<rparr>,
              \<lparr>originalText = ''World'', translatedText = Some ''Monde'', sourceLanguage = ''auto'',
               targetLanguage = ''fr'', status = JCompleted, error = None, retryCount = 0\<rparr>],
           bstatus = BCompleted, progress = (1, 2)\<rparr>],
       totalStrings = 2, translatedStrings = 1, skippedStrings = 0, errorStrings = 1,
       sstatus = SCompleted,
       logs =
         [\<lparr>level = LInfo, message = Starting 2 2\<rparr>,
          \<lparr>level = LInfo, message = Detected ''en'' ''Hello''\<rparr>,
          \<lparr>level = LWarning, message = Retry 1 3 ''Hello''\<rparr>,
          \<lparr>level = LInfo, message = Detected ''en'' ''Hello''\<rparr>,
          \<lparr>level = LWarning, message = Retry 2 3 ''Hello''\<rparr>,
          \<lparr>level = LInfo, message = Detected ''en'' ''Hello''\<rparr>,
          \<lparr>level = LWarning, message = Retry 3 3 ''Hello''\<rparr>,
          \<lparr>level = LInfo, message = Detected ''en'' ''Hello''\<rparr>,
          \<lparr>level = LError, message = FailedToTranslate ''Hello'' ''HTTP 500''\<rparr>,
          \<lparr>level = LInfo, message = Detected ''en'' ''World''\<rparr>,
          \<lparr>level = LInfo, message = Translated ''World'' ''Monde''\<rparr>,
          \<lparr>level = LSuccess, message = FinalGenerated\<rparr>,
          \<lparr>level = LSuccess, message = TranslationCompleted\<rparr>]\<rparr>
    in Some (\<lparr>currentSession = Some finished, isProcessing = False, servicePauseRequested = False\<rparr>,
         5,
         [(0, 0, CacheGet ''Hello'' ''auto'' ''fr''), (0, 0, WaitForSlot),
          (0, 0, DetectLanguage ''Hello''), (0, 0, Translate ''Hello'' ''en'' ''fr''),
          (0, 0, Backoff 2000),
          (0, 0, CacheGet ''Hello'' ''auto'' ''fr''), (0, 0, WaitForSlot),
          (0, 0, DetectLanguage ''Hello''), (0, 0, Translate ''Hello'' ''en'' ''fr''),
          (0, 0, Backoff 4000),
          (0, 0, CacheGet ''Hello'' ''auto'' ''fr''), (0, 0, WaitForSlot),
          (0, 0, DetectLanguage ''Hello''), (0, 0, Translate ''Hello'' ''en'' ''fr''),
          (0, 0, Backoff 8000),
          (0, 0, CacheGet ''Hello'' ''auto'' ''fr''), (0, 0, WaitForSlot),
          (0, 0, DetectLanguage ''Hello''), (0, 0, Translate ''Hello'' ''en'' ''fr''),
          (0, 1, CacheGet ''World'' ''auto'' ''fr''), (0, 1, WaitForSlot),
          (0, 1, DetectLanguage ''World''), (0, 1, Translate ''World'' ''en'' ''fr''),
          (0, 1, CacheSet ''World'' ''en'' ''fr'' ''Monde'')],
         Inr finished))"
proof -
  let ?w = "\<lambda>k::nat. if k < 4
          then \<lparr>cached = None, detected = ''en'', response = Inl ''HTTP 500'', pauseArrives = False\<rparr>
          else \<lparr>cached = None, detected = ''en'', response = Inr ''Monde'', pauseArrives = False\<rparr>"
  let ?J = "JObj [(''a'', JStr ''Hello''), (''b'', JStr ''World'')]"
  let ?hello = "\<lparr>originalText = ''Hello'', translatedText = None, sourceLanguage = ''auto'',
       targetLanguage = ''fr'', status = JPending, error = None, retryCount = 0\<rparr>"
  let ?world = "\<lparr>originalText = ''World'', translatedText = None, sourceLanguage = ''auto'',
       targetLanguage = ''fr'', status = JPending, error = None, retryCount = 0\<rparr>"
  have ex: "extractStrings ?J [] = [([''a''], ''Hello''), ([''b''], ''World'')]"
    by (simp add: shouldTranslate_Hello shouldTranslate_World)
  have dd: "deduplicateStrings [([''a''], ''Hello''), ([''b''], ''World'')] =
      Inr ([\<lparr>upath = [''a''], uvalue = ''Hello'', originalIndices = [0]\<rparr>,
            \<lparr>upath = [''b''], uvalue = ''World'', originalIndices = [1]\<rparr>],
           [(''Hello'', [0]), (''World'', [1])])"
    by code_simp
  have cb: "createBatches ''auto'' ''fr''
      [\<lparr>upath = [''a''], uvalue = ''Hello'', originalIndices = [0]\<rparr>,
       \<lparr>upath = [''b''], uvalue = ''World'', originalIndices = [1]\<rparr>] 50 =
      Some [\<lparr>jobs = [?hello, ?world], bstatus = BPending, progress = (0, 0)\<rparr>]"
    by (simp add: createBatches_def createBatchesFrom.simps newJob_def)
  have pj0: "processJob ?w 0 3 ?hello =
     (\<lparr>originalText = ''Hello'', translatedText = None, sourceLanguage = ''auto'',
       targetLanguage = ''fr'', status = JError, error = Some ''HTTP 500'', retryCount = 4\<rparr>,
      [\<lparr>level = LInfo, message = Detected ''en'' ''Hello''\<rparr>,
       \<lparr>level = LWarning, message = Retry 1 3 ''Hello''\<rparr>,
       \<lparr>level = LInfo, message = Detected ''en'' ''Hello''\<rparr>,
       \<lparr>level = LWarning, message = Retry 2 3 ''Hello''\<rparr>,
       \<lparr>level = LInfo, message = Detected ''en'' ''Hello''\<rparr>,
       \<lparr>level = LWarning, message = Retry 3 3 ''Hello''\<rparr>,
       \<lparr>level = LInfo, message = Detected ''en'' ''Hello''\<rparr>,
       \<lparr>level = LError, message = FailedToTranslate ''Hello'' ''HTTP 500''\<rparr>],
      [CacheGet ''Hello'' ''auto'' ''fr'', WaitForSlot, DetectLanguage ''Hello'',
       Translate ''Hello'' ''en'' ''fr'', Backoff 2000,
       CacheGet ''Hello'' ''auto'' ''fr'', WaitForSlot, DetectLanguage ''Hello'',
       Translate ''Hello'' ''en'' ''fr'', Backoff 4000,
       CacheGet ''Hello'' ''auto'' ''fr'', WaitForSlot, DetectLanguage ''Hello'',
       Translate ''Hello'' ''en'' ''fr'', Backoff 8000,
       CacheGet ''Hello'' ''auto'' ''fr'', WaitForSlot, DetectLanguage ''Hello'',
       Translate ''Hello'' ''en'' ''fr''],
      4, False)"
    by (simp add: processJob.simps Let_def)
  have pj1: "processJob ?w 4 3 ?world =
     (\<lparr>originalText = ''World'', translatedText = Some ''Monde'', sourceLanguage = ''auto'',
       targetLanguage = ''fr'', status = JCompleted, error = None, retryCount = 0\<rparr>,
      [\<lparr>level = LInfo, message = Detected ''en'' ''World''\<rparr>,
       \<lparr>level = LInfo, message = Translated ''World'' ''Monde''\<rparr>],
      [CacheGet ''World'' ''auto'' ''fr'', WaitForSlot, DetectLanguage ''World'',
       Translate ''World'' ''en'' ''fr'', CacheSet ''World'' ''en'' ''fr'' ''Monde''],
      5, False)"
    by (simp add: processJob.simps Let_def)
  let ?cfg = "\<lparr>configSourceLanguage = ''auto'', configTargetLanguage = ''fr'', batchSize = 50, maxRetries = 3\<rparr>"
  let ?strings = "[([''a''], ''Hello''), ([''b''], ''World'')]"
  let ?unique = "[\<lparr>upath = [''a''], uvalue = ''Hello'', originalIndices = [0]\<rparr>,
            \<lparr>upath = [''b''], uvalue = ''World'', originalIndices = [1]\<rparr>]"
  let ?bs = "[\<lparr>jobs = [?hello, ?world], bstatus = BPending, progress = (0, 0)\<rparr>]"
  let ?processed = "\<lparr>sessionSourceLanguage = ''auto'', sessionTargetLanguage = ''fr'',
       originalJson = ?J,
       translatedJson = Some (JObj [(''a'', JStr ''Monde''), (''b'', JStr ''World'')]),
       batches =
         [\<lparr>jobs =
             [\<lparr>originalText = ''Hello'', translatedText = None, sourceLanguage = ''auto'',
               targetLanguage = ''fr'', status = JError, error = Some ''HTTP 500'', retryCount = 4\<rparr>,
              \<lparr>originalText = ''World'', translatedText = Some ''Monde'', sourceLanguage = ''auto'',
               targetLanguage = ''fr'', status = JCompleted, error = None, retryCount = 0\<rparr>],
           bstatus = BCompleted, progress = (1, 2)\<rparr>],
       totalStrings = 2, translatedStrings = 1, skippedStrings = 0, errorStrings = 1,
       sstatus = SProcessing,
       logs =
         [\<lparr>level = LInfo, message = Starting 2 2\<rparr>,
          \<lparr>level = LInfo, message = Detected ''en'' ''Hello''\<rparr>,
          \<lparr>level = LWarning, message = Retry 1 3 ''Hello''\<rparr>,
          \<lparr>level = LInfo, message = Detected ''en'' ''Hello''\<rparr>,
          \<lparr>level = LWarning, message = Retry 2 3 ''Hello''\<rparr>,
          \<lparr>level = LInfo, message = Detected ''en'' ''Hello''\<rparr>,
          \<lparr>level = LWarning, message = Retry 3 3 ''Hello''\<rparr>,
          \<lparr>level = LInfo, message = Detected ''en'' ''Hello''\<rparr>,
          \<lparr>level = LError, message = FailedToTranslate ''Hello'' ''HTTP 500''\<rparr>,
          \<lparr>level = LInfo, message = Detected ''en'' ''World''\<rparr>,
          \<lparr>level = LInfo, message = Translated ''World'' ''Monde''\<rparr>,
          \<lparr>level = LSuccess, message = FinalGenerated\<rparr>]\<rparr>"
  let ?trace = "[(0, 0, CacheGet ''Hello'' ''auto'' ''fr''), (0, 0, WaitForSlot),
          (0, 0, DetectLanguage ''Hello''), (0, 0, Translate ''Hello'' ''en'' ''fr''),
          (0, 0, Backoff 2000),
          (0, 0, CacheGet ''Hello'' ''auto'' ''fr''), (0, 0, WaitForSlot),
          (0, 0, DetectLanguage ''Hello''), (0, 0, Translate ''Hello'' ''en'' ''fr''),
          (0, 0, Backoff 4000),
          (0, 0, CacheGet ''Hello'' ''auto'' ''fr''), (0, 0, WaitForSlot),
          (0, 0, DetectLanguage ''Hello''), (0, 0, Translate ''Hello'' ''en'' ''fr''),
          (0, 0, Backoff 8000),
          (0, 0, CacheGet ''Hello'' ''auto'' ''fr''), (0, 0, WaitForSlot),
          (0, 0, DetectLanguage ''Hello''), (0, 0, Translate ''Hello'' ''en'' ''fr''),
          (0, 1, CacheGet ''World'' ''auto'' ''fr''), (0, 1, WaitForSlot),
          (0, 1, DetectLanguage ''World''), (0, 1, Translate ''World'' ''en'' ''fr''),
          (0, 1, CacheSet ''World'' ''en'' ''fr'' ''Monde'')]"
  have ne: "?strings \<noteq> []" by simp
  have cb': "createBatches (configSourceLanguage ?cfg) (configTargetLanguage ?cfg) ?unique
      (batchSize ?cfg) = Some ?bs"
    using cb by simp
  have ex': "extractStrings ?J [] = ?strings \<and> deduplicateStrings ?strings = Inr (?unique, [(''Hello'', [0]), (''World'', [1])])"
    using ex dd by simp
  have pb: "processBatches ?w (maxRetries ?cfg)
           \<lparr>session =
              (addLog LInfo (Starting (length ?strings) (length ?unique))
                 \<lparr>sessionSourceLanguage = configSourceLanguage ?cfg,
                  sessionTargetLanguage = configTargetLanguage ?cfg,
                  originalJson = ?J, translatedJson = None, batches = [],
                  totalStrings = length ?strings, translatedStrings = 0,
                  skippedStrings = 0, errorStrings = 0, sstatus = SProcessing,
                  logs = []\<rparr>)\<lparr>batches := ?bs\<rparr>,
            pauseRequested = False, tick = 0, trace = []\<rparr> =
        (\<lparr>session = ?processed, pauseRequested = False, tick = 5, trace = ?trace\<rparr>, None)"
    by (simp add: processBatches_def processBatch_def pj0 pj1
        setBatch_def addLog_def isPendingOrError_def isDone_def updateSessionProgress_def
        generateFinalResult_def buildTranslationMap_def ex' applyTranslations_def cloneDeep_def
        Let_def del: extractStrings.simps)
  have "\<not> isProcessing \<lparr>currentSession = None, isProcessing = False, servicePauseRequested = False\<rparr>"
    by simp
  from startTranslation_run[OF this conjunct1[OF ex'] ne conjunct2[OF ex'] cb' pb]
  show ?thesis by (simp add: addLog_def Let_def)
qed

end
